theory Spec2Isabelle
  imports
    Main
    "HOL-Library.Word"
    "HOL-Library.Char_ord"
    "HOL-Library.List_Lexorder"
    "HOL-Library.Product_Lexorder"
    "HOL-Library.Multiset"
begin

section \<open>The staging relay of src/index.ts\<close>

text \<open>
  The server keeps one process-wide store \<open>txdb\<close>: a map from a safe key (chain id and
  lower-cased safe address) to a JavaScript \<open>Map\<close> from transaction digest to the staged
  transaction. The \<open>POST /:chainId/:safeAddress\<close> handler is the only writer. Calls to the
  chain (the Safe contract, through ethers) and the ethers helpers that need elliptic-curve
  arithmetic or keccak are taken as parameters, collected in the record \<open>env\<close>; a call that
  throws returns \<open>None\<close>.

  The repository holds a second, earlier revision of the same handler (the store a plain
  array, no digest, no limits, the response the unfiltered array). The digest-keyed handler
  of \<open>src/index.ts\<close> is the one modelled here.
\<close>

subsection \<open>Data model\<close>

text \<open>
  \<open>SafeTransaction\<close> and \<open>StagedTransaction\<close> as declared in the source. The field
  \<open>value\<close> is written \<open>val\<close> and \<open>_nonce\<close> is written \<open>nonce\<close>. The nonce is a JavaScript
  number holding an integer; it is compared with the \<open>bigint\<close> the contract returns, which
  JavaScript does by mathematical value.
\<close>

record SafeTransaction =
  to :: string
  val :: string
  data :: string
  operation :: string
  safeTxGas :: string
  baseGas :: string
  gasPrice :: string
  gasToken :: string
  refundReceiver :: string
  nonce :: int

record StagedTransaction =
  txn :: SafeTransaction
  sigs :: "string list"

definition MAX_SIGS :: nat where
  "MAX_SIGS = 100"

definition MAX_TXNS_STAGED :: nat where
  "MAX_TXNS_STAGED = 100"

definition MAX_TXDATA_SIZE :: nat where
  "MAX_TXDATA_SIZE = 1000000"

text \<open>
  The responses of the handler. Each error is one \<open>res.status(..).send(..)\<close> of the source;
  \<open>status\<close> and \<open>message\<close> give the HTTP status and body it sends. \<open>UncaughtException\<close> is
  an exception raised outside the handler's \<open>try\<close> block, which express answers itself.
\<close>

datatype error =
    InvalidAccount
  | TxnTooLarge
  | UnsupportedChain
  | TooManyStaged
  | NonceTooLow
  | NonceGap
  | TooManySignatures
  | InvalidSignature
  | UnexpectedError
  | UncaughtException

fun status :: "error \<Rightarrow> nat" where
  "status UnexpectedError = 500"
| "status UncaughtException = 500"
| "status _ = 400"

fun message :: "error \<Rightarrow> string" where
  "message InvalidAccount = ''invalid chain id or safe address''"
| "message TxnTooLarge = ''txn too large''"
| "message UnsupportedChain = ''chain id not supported''"
| "message TooManyStaged = ''maximum staged signatures for this safe''"
| "message NonceTooLow = ''proposed nonce is lower than current safe nonce''"
| "message NonceGap =
     ''proposed nonce is higher than current safe nonce with missing staged''"
| "message TooManySignatures = ''maximum signatures reached for transaction''"
| "message InvalidSignature = ''invalid signature''"
| "message UnexpectedError = ''unexpected error, please check server logs''"
| "message UncaughtException = ''Internal Server Error''"

text \<open>
  A JavaScript \<open>Map\<close> keeps its entries in insertion order, and the response lists the
  values in that order, so the inner map is an association list. \<open>Map_set\<close> overwrites the
  value of a present key in place and appends an absent key; \<open>Map_delete\<close> removes the key.
\<close>

type_synonym txmap = "(string \<times> StagedTransaction) list"

type_synonym txdb = "(int \<times> string) \<Rightarrow> txmap option"

definition Map_get :: "txmap \<Rightarrow> string \<Rightarrow> StagedTransaction option" where
  "Map_get txs k = map_of txs k"

primrec Map_set :: "txmap \<Rightarrow> string \<Rightarrow> StagedTransaction \<Rightarrow> txmap" where
  "Map_set [] k v = [(k, v)]"
| "Map_set (p # ps) k v = (if fst p = k then (k, v) # ps else p # Map_set ps k v)"

definition Map_delete :: "txmap \<Rightarrow> string \<Rightarrow> txmap" where
  "Map_delete txs k = filter (\<lambda>p. fst p \<noteq> k) txs"

definition Map_values :: "txmap \<Rightarrow> StagedTransaction list" where
  "Map_values txs = map snd txs"

definition Map_size :: "txmap \<Rightarrow> nat" where
  "Map_size txs = length txs"

subsection \<open>ethers and lodash helpers\<close>

type_synonym byte = "8 word"

definition hexDigit :: "char \<Rightarrow> nat option" where
  "hexDigit c =
     (let n = (of_char c :: nat)
      in if 48 \<le> n \<and> n \<le> 57 then Some (n - 48)
         else if 97 \<le> n \<and> n \<le> 102 then Some (n - 87)
         else if 65 \<le> n \<and> n \<le> 70 then Some (n - 55)
         else None)"

fun parseHexPairs :: "string \<Rightarrow> byte list option" where
  "parseHexPairs [] = Some []"
| "parseHexPairs [c] = None"
| "parseHexPairs (h # l # rest) =
     (case hexDigit h of
        None \<Rightarrow> None
      | Some a \<Rightarrow>
         (case hexDigit l of
            None \<Rightarrow> None
          | Some b \<Rightarrow>
             (case parseHexPairs rest of
                None \<Rightarrow> None
              | Some bs \<Rightarrow> Some (of_nat (16 * a + b) # bs))))"

text \<open>
  \<open>ethers.getBytes\<close> on a string: the string must match
  \<^verbatim>\<open>/^0x(?:[0-9a-f][0-9a-f])*$/i\<close>, otherwise it throws (\<open>None\<close>).
\<close>

definition getBytes :: "string \<Rightarrow> byte list option" where
  "getBytes v =
     (case v of
        z # x # rest \<Rightarrow>
          if z = CHR ''0'' \<and> (x = CHR ''x'' \<or> x = CHR ''X'') then parseHexPairs rest
          else None
      | _ \<Rightarrow> None)"

definition hexChar :: "nat \<Rightarrow> char" where
  "hexChar n = (if n < 10 then char_of (48 + n) else char_of (87 + n))"

definition hexlify :: "byte list \<Rightarrow> string" where
  "hexlify bs =
     ''0x'' @ concat (map (\<lambda>b. [hexChar (unat b div 16), hexChar (unat b mod 16)]) bs)"

text \<open>\<open>ethers.concat\<close> of hex strings: each is decoded (which may throw) and the bytes joined.\<close>

definition ethers_concat :: "string list \<Rightarrow> string option" where
  "ethers_concat ds =
     (case those (map getBytes ds) of
        None \<Rightarrow> None
      | Some bss \<Rightarrow> Some (hexlify (concat bss)))"

text \<open>\<open>String.prototype.toLowerCase\<close> on the ASCII range the addresses are written in.\<close>

definition toLowerCase :: "string \<Rightarrow> string" where
  "toLowerCase s =
     map (\<lambda>c. let n = (of_char c :: nat)
               in if 65 \<le> n \<and> n \<le> 90 then char_of (n + 32) else c) s"

definition lodash_last :: "'a list \<Rightarrow> 'a option" where
  "lodash_last xs = (if xs = [] then None else Some (last xs))"

text \<open>
  \<open>_.union\<close>: the values of both arrays in order of first occurrence, compared with
  \<open>SameValueZero\<close> (for strings: equality of the strings).
\<close>

primrec baseUniq :: "'a list \<Rightarrow> 'a list \<Rightarrow> 'a list" where
  "baseUniq [] result = result"
| "baseUniq (x # xs) result =
     baseUniq xs (if x \<in> set result then result else result @ [x])"

definition lodash_union :: "'a list \<Rightarrow> 'a list \<Rightarrow> 'a list" where
  "lodash_union a b = baseUniq (a @ b) []"

text \<open>
  \<open>_.sortBy\<close>: the iteratee is run once on every element (an exception it throws leaves
  \<open>sortBy\<close>), then the elements are sorted ascending by the computed criteria, elements with
  equal criteria keeping their order.
\<close>

definition lodash_sortBy :: "('a \<Rightarrow> ('k::linorder) option) \<Rightarrow> 'a list \<Rightarrow> 'a list option" where
  "lodash_sortBy iteratee xs =
     (case those (map iteratee xs) of
        None \<Rightarrow> None
      | Some criteria \<Rightarrow> Some (map snd (sort_key fst (zip criteria xs))))"

text \<open>
  The criteria of the two numeric sorts may be \<open>undefined\<close>; lodash orders numbers
  ascending and puts \<open>undefined\<close> last.
\<close>

definition criterion :: "int option \<Rightarrow> nat \<times> int" where
  "criterion k = (case k of None \<Rightarrow> (1, 0) | Some n \<Rightarrow> (0, n))"

subsection \<open>The environment: chain and library calls\<close>

record env =
  parseInt :: "string \<Rightarrow> int option"
  isAddress :: "string \<Rightarrow> bool"
  getAddress :: "string \<Rightarrow> string option"
  stringify_length :: "StagedTransaction \<Rightarrow> nat"
  getProvider :: "int \<Rightarrow> bool"
  encodeTransactionData :: "int \<Rightarrow> string \<Rightarrow> SafeTransaction \<Rightarrow> string option"
  keccak256 :: "string \<Rightarrow> string option"
  safe_nonce :: "int \<Rightarrow> string \<Rightarrow> int option"
  checkNSignatures :: "int \<Rightarrow> string \<Rightarrow> string \<Rightarrow> string \<Rightarrow> string \<Rightarrow> nat \<Rightarrow> bool"
  hashMessage :: "byte list \<Rightarrow> string"
  recoverAddress :: "string \<Rightarrow> string \<Rightarrow> string option"

definition isSafeInteger :: "int \<Rightarrow> bool" where
  "isSafeInteger n = (\<bar>n\<bar> \<le> 2 ^ 53 - 1)"

definition getSafeKey :: "int \<Rightarrow> string \<Rightarrow> int \<times> string" where
  "getSafeKey chainId safeAddress = (chainId, toLowerCase safeAddress)"

text \<open>
  \<open>parseSafeParams\<close> returns the empty object (\<open>Inr None\<close>) for a bad chain id or address;
  \<open>ethers.getAddress\<close> may throw.
\<close>

definition parseSafeParams :: "env \<Rightarrow> string \<Rightarrow> string \<Rightarrow> error + (int \<times> string) option" where
  "parseSafeParams e p_chainId p_safeAddress =
     (case parseInt e p_chainId of
        None \<Rightarrow> Inr None
      | Some chainId \<Rightarrow>
          if \<not> isSafeInteger chainId \<or> chainId < 1 then Inr None
          else if \<not> isAddress e p_safeAddress then Inr None
          else (case getAddress e (toLowerCase p_safeAddress) of
                  None \<Rightarrow> Inl UncaughtException
                | Some safeAddress \<Rightarrow> Inr (Some (chainId, safeAddress))))"

subsection \<open>The signature sort key and the merge\<close>

text \<open>
  The iteratee of the signature sort: decode the signature, subtract 4 from its last byte
  when that exceeds 30, recover the signer of the digest's message hash and lower-case it.
\<close>

definition recoverSigner :: "env \<Rightarrow> string \<Rightarrow> string \<Rightarrow> string option" where
  "recoverSigner e digest signature =
     (case getBytes signature of
        None \<Rightarrow> None
      | Some signatureBytes \<Rightarrow>
          let adjusted =
                (case lodash_last signatureBytes of
                   None \<Rightarrow> signatureBytes
                 | Some l \<Rightarrow>
                     if unat l > 30
                     then signatureBytes[length signatureBytes - 1 := l - 4]
                     else signatureBytes)
          in (case getBytes digest of
                None \<Rightarrow> None
              | Some digestBytes \<Rightarrow>
                  (case recoverAddress e (hashMessage e digestBytes) (hexlify adjusted) of
                     None \<Rightarrow> None
                   | Some a \<Rightarrow> Some (toLowerCase a))))"

definition mergeSigs :: "env \<Rightarrow> string \<Rightarrow> string list \<Rightarrow> string list \<Rightarrow> string list option" where
  "mergeSigs e digest incoming existing =
     lodash_sortBy (recoverSigner e digest) (lodash_union incoming existing)"

subsection \<open>The handlers\<close>

text \<open>
  The clean-up loop after the commit. \<open>t !== signedTransactionInfo\<close> compares object
  identity: the request body was stored under \<open>digest\<close> just before, every other value of the
  map is the body of an earlier request, so the test is \<open>h \<noteq> digest\<close>. The loop deletes
  only the entry it is visiting, so the iteration sees every entry of the map.
\<close>

fun gc_loop ::
  "int \<Rightarrow> string \<Rightarrow> StagedTransaction \<Rightarrow> (string \<times> StagedTransaction) list \<Rightarrow> txmap \<Rightarrow> txmap"
where
  "gc_loop currentNonce digest info [] txs = txs"
| "gc_loop currentNonce digest info ((h, t) # es) txs =
     gc_loop currentNonce digest info es
       (if nonce (txn t) < currentNonce \<or> (h \<noteq> digest \<and> txn t = txn info)
        then Map_delete txs h else txs)"

text \<open>
  The response of POST sorts by \<open>t._nonce\<close>. A \<open>StagedTransaction\<close> has the fields \<open>txn\<close>
  and \<open>sigs\<close> only, so the property read is \<open>undefined\<close> for every element. GET sorts by
  \<open>t.txn._nonce\<close>.
\<close>

definition post_iteratee :: "StagedTransaction \<Rightarrow> (nat \<times> int) option" where
  "post_iteratee t = Some (criterion None)"

definition get_iteratee :: "StagedTransaction \<Rightarrow> (nat \<times> int) option" where
  "get_iteratee t = Some (criterion (Some (nonce (txn t))))"

definition txs_of :: "txdb \<Rightarrow> int \<times> string \<Rightarrow> txmap" where
  "txs_of db k = (case db k of None \<Rightarrow> [] | Some txs \<Rightarrow> txs)"

definition get_handler :: "env \<Rightarrow> string \<Rightarrow> string \<Rightarrow> txdb \<Rightarrow> error + StagedTransaction list" where
  "get_handler e p_chainId p_safeAddress db =
     (case parseSafeParams e p_chainId p_safeAddress of
        Inl err \<Rightarrow> Inl err
      | Inr None \<Rightarrow> Inl InvalidAccount
      | Inr (Some (chainId, safeAddress)) \<Rightarrow>
          if safeAddress = [] then Inl InvalidAccount
          else (case lodash_sortBy get_iteratee
                       (Map_values (txs_of db (getSafeKey chainId safeAddress))) of
                  None \<Rightarrow> Inl UncaughtException
                | Some r \<Rightarrow> Inr r))"

text \<open>
  The first-submission branch (\<open>!existingTx\<close>): capacity, then the two nonce rules.
  The signatures are kept as submitted.
\<close>

definition first_submission ::
  "txmap \<Rightarrow> int \<Rightarrow> StagedTransaction \<Rightarrow> error + string list" where
  "first_submission txs currentNonce info =
     (if Map_size txs > MAX_TXNS_STAGED then Inl TooManyStaged
      else if nonce (txn info) < currentNonce then Inl NonceTooLow
      else if nonce (txn info) > currentNonce \<and>
              find (\<lambda>tx. nonce (txn tx) = nonce (txn info) - 1) (Map_values txs) = None
           then Inl NonceGap
      else Inr (sigs info))"

text \<open>
  The merge branch: union with the staged signatures, sort by recovered signer (an
  exception of the iteratee reaches the outer \<open>catch\<close>), then the size limit.
\<close>

definition merge_submission ::
  "env \<Rightarrow> string \<Rightarrow> StagedTransaction \<Rightarrow> StagedTransaction \<Rightarrow> error + string list" where
  "merge_submission e digest existingTx info =
     (case mergeSigs e digest (sigs info) (sigs existingTx) of
        None \<Rightarrow> Inl UnexpectedError
      | Some merged \<Rightarrow>
          if length merged > MAX_SIGS then Inl TooManySignatures else Inr merged)"

text \<open>The branch on \<open>existingTx\<close>: the signature list the submission goes on with.\<close>

definition submitted_sigs ::
  "env \<Rightarrow> txmap \<Rightarrow> string \<Rightarrow> int \<Rightarrow> StagedTransaction \<Rightarrow> error + string list" where
  "submitted_sigs e txs digest currentNonce info =
     (case Map_get txs digest of
        None \<Rightarrow> first_submission txs currentNonce info
      | Some existingTx \<Rightarrow> merge_submission e digest existingTx info)"

text \<open>
  The inner \<open>try\<close>: \<open>ethers.concat\<close> of the signatures and the contract's
  \<open>checkNSignatures\<close>; an exception of either is caught there.
\<close>

definition sigs_valid ::
  "env \<Rightarrow> int \<Rightarrow> string \<Rightarrow> string \<Rightarrow> string \<Rightarrow> string list \<Rightarrow> bool" where
  "sigs_valid e chainId safeAddress digest hashData sigs' =
     (case ethers_concat sigs' of
        None \<Rightarrow> False
      | Some bundle \<Rightarrow>
          checkNSignatures e chainId safeAddress digest hashData bundle (length sigs'))"

text \<open>\<open>txs.set(digest, signedTransactionInfo)\<close> and the clean-up loop over the map.\<close>

definition commit :: "txmap \<Rightarrow> string \<Rightarrow> int \<Rightarrow> StagedTransaction \<Rightarrow> txmap" where
  "commit txs digest currentNonce signedTransactionInfo =
     (let txs1 = Map_set txs digest signedTransactionInfo
      in gc_loop currentNonce digest signedTransactionInfo txs1 txs1)"

definition post_handler ::
  "env \<Rightarrow> string \<Rightarrow> string \<Rightarrow> StagedTransaction \<Rightarrow> txdb
     \<Rightarrow> (error + StagedTransaction list) \<times> txdb"
where
  "post_handler e p_chainId p_safeAddress body db =
     (case parseSafeParams e p_chainId p_safeAddress of
        Inl err \<Rightarrow> (Inl err, db)
      | Inr None \<Rightarrow> (Inl InvalidAccount, db)
      | Inr (Some (chainId, safeAddress)) \<Rightarrow>
          if safeAddress = [] then (Inl InvalidAccount, db)
          else if stringify_length e body > MAX_TXDATA_SIZE then (Inl TxnTooLarge, db)
          else if \<not> getProvider e chainId then (Inl UnsupportedChain, db)
          else
            let txs = txs_of db (getSafeKey chainId safeAddress) in
            (case encodeTransactionData e chainId safeAddress (txn body) of
               None \<Rightarrow> (Inl UnexpectedError, db)
             | Some hashData \<Rightarrow>
            (case keccak256 e hashData of
               None \<Rightarrow> (Inl UnexpectedError, db)
             | Some digest \<Rightarrow>
            (case safe_nonce e chainId safeAddress of
               None \<Rightarrow> (Inl UnexpectedError, db)
             | Some currentNonce \<Rightarrow>
            (case submitted_sigs e txs digest currentNonce body of
               Inl err \<Rightarrow> (Inl err, db)
             | Inr sigs' \<Rightarrow>
                 let signedTransactionInfo = body\<lparr>sigs := sigs'\<rparr> in
                 if \<not> sigs_valid e chainId safeAddress digest hashData sigs'
                 then (Inl InvalidSignature, db)
                 else
                   let txs' = commit txs digest currentNonce signedTransactionInfo;
                       db' = db(getSafeKey chainId safeAddress \<mapsto> txs')
                   in (case lodash_sortBy post_iteratee (Map_values txs') of
                         None \<Rightarrow> (Inl UnexpectedError, db')
                       | Some r \<Rightarrow> (Inr r, db')))))))"

text \<open>
  The point of the handler at which the staged transaction is looked up: the parameters
  parsed, the body within the size limit, a provider for the chain, and the three chain
  calls answered with \<open>hashData\<close>, \<open>digest\<close> and \<open>currentNonce\<close>.
\<close>

definition at_lookup ::
  "env \<Rightarrow> string \<Rightarrow> string \<Rightarrow> StagedTransaction
     \<Rightarrow> int \<Rightarrow> string \<Rightarrow> string \<Rightarrow> string \<Rightarrow> int \<Rightarrow> bool"
where
  "at_lookup e p_chainId p_safeAddress body chainId safeAddress hashData digest currentNonce
     \<longleftrightarrow>
     parseSafeParams e p_chainId p_safeAddress = Inr (Some (chainId, safeAddress)) \<and>
     safeAddress \<noteq> [] \<and>
     stringify_length e body \<le> MAX_TXDATA_SIZE \<and>
     getProvider e chainId \<and>
     encodeTransactionData e chainId safeAddress (txn body) = Some hashData \<and>
     keccak256 e hashData = Some digest \<and>
     safe_nonce e chainId safeAddress = Some currentNonce"

text \<open>The stores the server can be in: the empty one at start, then any sequence of POSTs.\<close>

inductive reachable :: "txdb \<Rightarrow> bool" where
  start: "reachable Map.empty"
| post: "reachable db \<Longrightarrow> reachable (snd (post_handler e p_chainId p_safeAddress body db))"

text \<open>
  What a JavaScript \<open>Map\<close> guarantees of the association list (one entry per digest), and
  the payload invariant the clean-up maintains: two entries with equal \<open>txn\<close> are one entry.
\<close>

definition Map_wf :: "txmap \<Rightarrow> bool" where
  "Map_wf txs \<longleftrightarrow> distinct (map fst txs)"

definition one_per_payload :: "txmap \<Rightarrow> bool" where
  "one_per_payload txs \<longleftrightarrow>
     (\<forall>p \<in> set txs. \<forall>q \<in> set txs. txn (snd p) = txn (snd q) \<longrightarrow> fst p = fst q)"

section \<open>A concrete environment\<close>

text \<open>
  The examples run the handler in a small environment: chain 1 has a provider, the hash
  data and digest of a transaction are its \<open>data\<close> field, the safe's nonce is \<open>cur\<close>, the
  contract accepts every bundle of at least one signature.

  \<open>ethers.recoverAddress\<close> recovers a signer from 65 bytes \<open>r\<close>, \<open>s\<close>, \<open>v\<close> only when \<open>r\<close>
  is the x-coordinate of a point of secp256k1, \<open>s\<close> is not zero and has its top bit clear,
  and \<open>v\<close> is 27 or 28 (other values of \<open>v\<close> it accepts are not used here); otherwise it
  throws. The environment recovers where \<open>r\<close> is 0x22...22, which is such an x-coordinate,
  under the same conditions on \<open>s\<close> and \<open>v\<close>, and throws on every other input. For fixed
  \<open>r\<close>, \<open>v\<close> and message, different \<open>s\<close> belong to different signers; the address
  returned stands for the real one and is read off the first 19 bytes of \<open>s\<close> and \<open>v\<close>.
\<close>

definition test_recoverAddress :: "string \<Rightarrow> string \<Rightarrow> string option" where
  "test_recoverAddress h signature =
     (case getBytes signature of
        None \<Rightarrow> None
      | Some bs \<Rightarrow>
          if length bs = 65 \<and> take 32 bs = replicate 32 34 \<and>
             unat (bs ! 32) < 128 \<and> take 32 (drop 32 bs) \<noteq> replicate 32 0 \<and>
             (bs ! 64 = 27 \<or> bs ! 64 = 28)
          then Some (hexlify (take 19 (drop 32 bs) @ [bs ! 64]))
          else None)"

definition safeA :: string where
  "safeA = ''0x00000000000000000000000000000000000000aa''"

definition test_env :: "int \<Rightarrow> env" where
  "test_env cur =
     \<lparr> parseInt = (\<lambda>s. if s = ''1'' then Some 1 else None),
       isAddress = (\<lambda>s. length s = 42),
       getAddress = (\<lambda>s. Some s),
       stringify_length = (\<lambda>b. length (data (txn b)) + length (sigs b)),
       getProvider = (\<lambda>c. c = 1),
       encodeTransactionData = (\<lambda>c a t. Some (data t)),
       keccak256 = (\<lambda>h. Some h),
       safe_nonce = (\<lambda>c a. Some cur),
       checkNSignatures = (\<lambda>c a d h b n. 0 < n),
       hashMessage = hexlify,
       recoverAddress = test_recoverAddress \<rparr>"

text \<open>
  A transaction with payload \<open>d\<close> and nonce \<open>n\<close>; the 65-byte signature with
  \<open>r\<close> = 0x22...22, every byte of \<open>s\<close> equal to \<open>a\<close>, and last byte \<open>v\<close>.
\<close>

definition tx :: "string \<Rightarrow> int \<Rightarrow> SafeTransaction" where
  "tx d n = \<lparr> to = safeA, val = ''0'', data = d, operation = ''0'', safeTxGas = ''0'',
              baseGas = ''0'', gasPrice = ''0'', gasToken = safeA, refundReceiver = safeA,
              nonce = n \<rparr>"

definition mk_sig :: "byte \<Rightarrow> byte \<Rightarrow> string" where
  "mk_sig a v = hexlify (replicate 32 34 @ replicate 32 a @ [v])"

text \<open>The \<open>i\<close>-th of a row of transactions with nonces 0, 1, 2, ... and the store holding
  the first \<open>n\<close> of them for \<open>safeA\<close> on chain 1.\<close>

definition dg :: "nat \<Rightarrow> string" where
  "dg i = hexlify (replicate i 0)"

definition body_n :: "nat \<Rightarrow> StagedTransaction" where
  "body_n i = \<lparr> txn = tx (dg i) (int i), sigs = [mk_sig 17 27] \<rparr>"

definition staged_n :: "nat \<Rightarrow> txmap" where
  "staged_n n = map (\<lambda>i. (dg i, body_n i)) [0..<n]"

definition full_db :: "nat \<Rightarrow> txdb" where
  "full_db n = Map.empty((1, safeA) \<mapsto> staged_n n)"

text \<open>The first \<open>n\<close> of a row of 65-byte signatures by pairwise different signers.\<close>

definition sigs_n :: "nat \<Rightarrow> string list" where
  "sigs_n n = map (\<lambda>i. mk_sig (of_nat (Suc i)) 27) [0..<n]"

section \<open>Library facts\<close>

subsection \<open>lodash\<close>

lemma those_map_total:
  "(\<And>x. x \<in> set xs \<Longrightarrow> f x = Some (g x)) \<Longrightarrow> those (map f xs) = Some (map g xs)"
  by (induction xs) auto

lemma those_map_None:
  "those (map f xs) = None \<longleftrightarrow> (\<exists>x \<in> set xs. f x = None)"
  by (induction xs) (auto split: option.splits)

lemma those_map_Some_D:
  "those (map f xs) = Some ys \<Longrightarrow> \<forall>x \<in> set xs. f x \<noteq> None"
  by (induction xs arbitrary: ys) (auto split: option.splits)

lemma sort_key_pairs:
  "sort_key fst (map (\<lambda>x. (g x, x)) xs) = map (\<lambda>x. (g x, x)) (sort_key g xs)"
proof (induction xs)
  case Nil
  then show ?case by simp
next
  case (Cons x xs)
  have "insort_key fst (g x, x) (map (\<lambda>x. (g x, x)) ys) =
        map (\<lambda>x. (g x, x)) (insort_key g x ys)" for ys
    by (induction ys) auto
  with Cons show ?case by simp
qed

lemma zip_map_self: "zip (map g xs) xs = map (\<lambda>x. (g x, x)) xs"
  by (induction xs) auto

lemma lodash_sortBy_total:
  assumes "\<And>x. x \<in> set xs \<Longrightarrow> f x = Some (g x)"
  shows "lodash_sortBy f xs = Some (sort_key g xs)"
  using those_map_total [of xs f g, OF assms]
  by (simp add: lodash_sortBy_def zip_map_self sort_key_pairs o_def)

lemma lodash_sortBy_None:
  "lodash_sortBy f xs = None \<longleftrightarrow> (\<exists>x \<in> set xs. f x = None)"
proof (cases "those (map f xs)")
  case None
  then show ?thesis by (simp add: lodash_sortBy_def those_map_None [symmetric])
next
  case (Some ys)
  then show ?thesis using those_map_Some_D [OF Some] by (simp add: lodash_sortBy_def)
qed

lemma lodash_sortBy_Some:
  assumes "lodash_sortBy f xs = Some ys"
  shows "ys = sort_key (\<lambda>x. the (f x)) xs" and "\<forall>x \<in> set xs. f x \<noteq> None"
proof -
  show n: "\<forall>x \<in> set xs. f x \<noteq> None"
    using assms lodash_sortBy_None [of f xs] by auto
  then have "lodash_sortBy f xs = Some (sort_key (\<lambda>x. the (f x)) xs)"
    by (intro lodash_sortBy_total) auto
  with assms show "ys = sort_key (\<lambda>x. the (f x)) xs" by simp
qed

lemma sortBy_post_iteratee: "lodash_sortBy post_iteratee xs = Some xs"
proof -
  have "lodash_sortBy post_iteratee xs = Some (sort_key (\<lambda>x. criterion None) xs)"
    by (rule lodash_sortBy_total) (simp add: post_iteratee_def)
  then show ?thesis by (simp add: sort_key_const)
qed

lemma baseUniq_set: "set (baseUniq xs r) = set xs \<union> set r"
  by (induction xs arbitrary: r) auto

lemma baseUniq_distinct: "distinct r \<Longrightarrow> distinct (baseUniq xs r)"
  by (induction xs arbitrary: r) auto

lemma lodash_union_set: "set (lodash_union a b) = set a \<union> set b"
  by (simp add: lodash_union_def baseUniq_set)

lemma lodash_union_distinct: "distinct (lodash_union a b)"
  by (simp add: lodash_union_def baseUniq_distinct)

subsection \<open>Map\<close>

lemma Map_set_keys: "fst ` set (Map_set txs k v) = insert k (fst ` set txs)"
  by (induction txs) auto

lemma Map_set_wf: "Map_wf txs \<Longrightarrow> Map_wf (Map_set txs k v)"
  unfolding Map_wf_def
proof (induction txs)
  case Nil
  then show ?case by simp
next
  case (Cons p ps)
  then show ?case using Map_set_keys [of ps k v] by (auto simp: image_iff)
qed

lemma Map_set_get: "Map_wf txs \<Longrightarrow> Map_get (Map_set txs k v) k' = (if k' = k then Some v else Map_get txs k')"
  unfolding Map_wf_def Map_get_def
  by (induction txs) (auto simp: image_iff map_of_eq_None_iff)

lemma Map_set_entries:
  "Map_wf txs \<Longrightarrow> set (Map_set txs k v) = insert (k, v) {p \<in> set txs. fst p \<noteq> k}"
  unfolding Map_wf_def
  by (induction txs) (auto simp: image_iff)

lemma Map_set_absent: "Map_get txs k = None \<Longrightarrow> Map_set txs k v = txs @ [(k, v)]"
  unfolding Map_get_def
  by (induction txs) (auto split: if_splits)

lemma Map_set_same: "Map_wf txs \<Longrightarrow> Map_get txs k = Some v \<Longrightarrow> Map_set txs k v = txs"
  unfolding Map_get_def Map_wf_def
  by (induction txs) (auto split: if_splits simp: map_of_eq_None_iff image_iff)

lemma Map_get_in: "Map_wf txs \<Longrightarrow> Map_get txs k = Some v \<longleftrightarrow> (k, v) \<in> set txs"
  unfolding Map_get_def Map_wf_def by simp

lemma gc_loop_deletes:
  "gc_loop c d i es txs =
     filter (\<lambda>p. \<not> (\<exists>t. (fst p, t) \<in> set es \<and>
                 (nonce (txn t) < c \<or> (fst p \<noteq> d \<and> txn t = txn i)))) txs"
proof (induction es arbitrary: txs)
  case Nil
  then show ?case by simp
next
  case (Cons e es)
  obtain h t where e: "e = (h, t)" by (cases e)
  show ?case
    unfolding e gc_loop.simps Cons Map_delete_def
    by (auto intro!: filter_cong)
qed

lemma gc_loop_filter:
  assumes "Map_wf txs"
  shows "gc_loop c d i txs txs =
     filter (\<lambda>p. \<not> (nonce (txn (snd p)) < c \<or> (fst p \<noteq> d \<and> txn (snd p) = txn i))) txs"
  unfolding gc_loop_deletes
proof (rule filter_cong [OF refl])
  fix p assume p: "p \<in> set txs"
  have u: "b = snd p" if "(fst p, b) \<in> set txs" for b
    using that p assms eq_key_imp_eq_value [of txs "fst p" b "snd p"]
    unfolding Map_wf_def by simp
  have v: "(fst p, snd p) \<in> set txs" using p by simp
  show "(\<not> (\<exists>t. (fst p, t) \<in> set txs \<and> (nonce (txn t) < c \<or> (fst p \<noteq> d \<and> txn t = txn i))))
     = (\<not> (nonce (txn (snd p)) < c \<or> (fst p \<noteq> d \<and> txn (snd p) = txn i)))"
    using u v by blast
qed

section \<open>The paths of the POST handler\<close>

lemma post_at_lookup:
  assumes "at_lookup e p_chainId p_safeAddress body chainId safeAddress hashData digest currentNonce"
  shows "post_handler e p_chainId p_safeAddress body db =
     (case submitted_sigs e (txs_of db (getSafeKey chainId safeAddress)) digest currentNonce body of
        Inl err \<Rightarrow> (Inl err, db)
      | Inr sigs' \<Rightarrow>
          if \<not> sigs_valid e chainId safeAddress digest hashData sigs'
          then (Inl InvalidSignature, db)
          else (Inr (Map_values (commit (txs_of db (getSafeKey chainId safeAddress)) digest
                       currentNonce (body\<lparr>sigs := sigs'\<rparr>))),
                db(getSafeKey chainId safeAddress \<mapsto>
                     commit (txs_of db (getSafeKey chainId safeAddress)) digest
                       currentNonce (body\<lparr>sigs := sigs'\<rparr>))))"
  using assms
  by (simp add: at_lookup_def post_handler_def Let_def sortBy_post_iteratee split: sum.splits)

lemma post_success_D:
  assumes "post_handler e p_chainId p_safeAddress body db = (Inr r, db')"
  obtains chainId safeAddress hashData digest currentNonce sigs' where
    "at_lookup e p_chainId p_safeAddress body chainId safeAddress hashData digest currentNonce"
    "submitted_sigs e (txs_of db (getSafeKey chainId safeAddress)) digest currentNonce body = Inr sigs'"
    "sigs_valid e chainId safeAddress digest hashData sigs'"
    "r = Map_values (commit (txs_of db (getSafeKey chainId safeAddress)) digest
                       currentNonce (body\<lparr>sigs := sigs'\<rparr>))"
    "db' = db(getSafeKey chainId safeAddress \<mapsto>
                     commit (txs_of db (getSafeKey chainId safeAddress)) digest
                       currentNonce (body\<lparr>sigs := sigs'\<rparr>))"
  using assms
  by (auto simp: at_lookup_def post_handler_def Let_def sortBy_post_iteratee
           split: sum.splits option.splits if_splits prod.splits)

lemma post_failure_store:
  "post_handler e p_chainId p_safeAddress body db = (Inl err, db') \<Longrightarrow> db' = db"
  by (auto simp: post_handler_def Let_def sortBy_post_iteratee
           split: sum.splits option.splits if_splits prod.splits)

lemma post_other_namespace:
  assumes "parseSafeParams e p_chainId p_safeAddress = Inr (Some (chainId, safeAddress))"
    and "k \<noteq> getSafeKey chainId safeAddress"
  shows "snd (post_handler e p_chainId p_safeAddress body db) k = db k"
  using assms
  by (auto simp: post_handler_def Let_def sortBy_post_iteratee
           split: sum.splits option.splits if_splits prod.splits)

subsection \<open>The commit and its clean-up\<close>

lemma commit_filter:
  assumes "Map_wf txs"
  shows "commit txs d c i =
     filter (\<lambda>p. \<not> (nonce (txn (snd p)) < c \<or> (fst p \<noteq> d \<and> txn (snd p) = txn i)))
       (Map_set txs d i)"
  unfolding commit_def Let_def by (rule gc_loop_filter) (rule Map_set_wf [OF assms])

lemma commit_wf: "Map_wf txs \<Longrightarrow> Map_wf (commit txs d c i)"
  using Map_set_wf [of txs d i]
  by (simp add: commit_filter) (simp add: Map_wf_def distinct_map_filter)

lemma commit_entries:
  assumes "Map_wf txs"
  shows "set (commit txs d c i) =
     {p \<in> set txs. fst p \<noteq> d \<and> c \<le> nonce (txn (snd p)) \<and> txn (snd p) \<noteq> txn i}
     \<union> (if c \<le> nonce (txn i) then {(d, i)} else {})"
proof -
  have "set (commit txs d c i) =
     {p \<in> insert (d, i) {p \<in> set txs. fst p \<noteq> d}.
        \<not> (nonce (txn (snd p)) < c \<or> (fst p \<noteq> d \<and> txn (snd p) = txn i))}"
    using assms by (simp add: commit_filter Map_set_entries)
  also have "\<dots> = {p \<in> set txs. fst p \<noteq> d \<and> c \<le> nonce (txn (snd p)) \<and> txn (snd p) \<noteq> txn i}
     \<union> (if c \<le> nonce (txn i) then {(d, i)} else {})"
    by (cases "c \<le> nonce (txn i)") (auto simp: not_less)
  finally show ?thesis .
qed

lemma commit_nonces:
  assumes "Map_wf txs" and "p \<in> set (commit txs d c i)"
  shows "c \<le> nonce (txn (snd p))"
proof -
  from assms have "\<not> nonce (txn (snd p)) < c"
    by (simp add: commit_filter)
  then show ?thesis by simp
qed

lemma commit_payload_key:
  assumes "Map_wf txs" and "p \<in> set (commit txs d c i)" and "txn (snd p) = txn i"
  shows "fst p = d"
  using assms by (simp add: commit_filter)

lemma commit_subset:
  assumes "Map_wf txs" and "p \<in> set (commit txs d c i)"
  shows "p = (d, i) \<or> (p \<in> set txs \<and> txn (snd p) \<noteq> txn i)"
proof -
  from assms have a: "p \<in> set (Map_set txs d i)" and b: "fst p = d \<or> txn (snd p) \<noteq> txn i"
    by (simp_all add: commit_filter)
  from a assms(1) have "p = (d, i) \<or> (p \<in> set txs \<and> fst p \<noteq> d)"
    by (simp add: Map_set_entries)
  with b show ?thesis by blast
qed

lemma commit_one_per_payload:
  assumes w: "Map_wf txs" and o: "one_per_payload txs"
  shows "one_per_payload (commit txs d c i)"
  unfolding one_per_payload_def
proof (intro ballI impI)
  fix p q
  assume p: "p \<in> set (commit txs d c i)" and q: "q \<in> set (commit txs d c i)"
    and e: "txn (snd p) = txn (snd q)"
  from commit_subset [OF w p] commit_subset [OF w q]
  consider "p = (d, i)" "q = (d, i)"
    | "p = (d, i)" "txn (snd q) \<noteq> txn i"
    | "txn (snd p) \<noteq> txn i" "q = (d, i)"
    | "p \<in> set txs" "q \<in> set txs"
    by blast
  then show "fst p = fst q"
  proof cases
    case 1 then show ?thesis by simp
  next
    case 2 with e show ?thesis by simp
  next
    case 3 with e show ?thesis by simp
  next
    case 4 with o e show ?thesis unfolding one_per_payload_def by blast
  qed
qed

lemma commit_kept:
  assumes w: "Map_wf txs" and n: "c \<le> nonce (txn i)"
  shows "Map_get (commit txs d c i) d = Some i"
proof -
  have "(d, i) \<in> set (Map_set txs d i)" using w by (simp add: Map_set_entries)
  with n have "(d, i) \<in> set (commit txs d c i)" using w by (simp add: commit_filter)
  then show ?thesis using commit_wf [OF w, of d c i] by (simp add: Map_get_in)
qed

lemma commit_dropped:
  assumes w: "Map_wf txs" and n: "nonce (txn i) < c"
  shows "Map_get (commit txs d c i) d = None"
proof -
  have "p \<in> set (commit txs d c i) \<Longrightarrow> fst p \<noteq> d" for p
  proof
    assume p: "p \<in> set (commit txs d c i)" and f: "fst p = d"
    from p w have "p \<in> set (Map_set txs d i)" by (simp add: commit_filter)
    with w f have "p = (d, i)" by (auto simp: Map_set_entries)
    with commit_nonces [OF w p] n show False by simp
  qed
  then show ?thesis unfolding Map_get_def map_of_eq_None_iff by (auto simp: image_iff)
qed

lemma reachable_inv:
  "reachable db \<Longrightarrow> db k = Some txs \<Longrightarrow> Map_wf txs \<and> one_per_payload txs"
proof (induction arbitrary: k txs rule: reachable.induct)
  case start
  then show ?case by simp
next
  case (post db e p_chainId p_safeAddress body)
  obtain res db' where r: "post_handler e p_chainId p_safeAddress body db = (res, db')"
    by (cases "post_handler e p_chainId p_safeAddress body db")
  show ?case
  proof (cases res)
    case (Inl err)
    then have "db' = db" using r post_failure_store by blast
    with post r show ?thesis by simp
  next
    case (Inr rs)
    with r have s: "post_handler e p_chainId p_safeAddress body db = (Inr rs, db')" by simp
    from s obtain chainId safeAddress digest currentNonce sigs' where
      d: "db' = db(getSafeKey chainId safeAddress \<mapsto>
                     commit (txs_of db (getSafeKey chainId safeAddress)) digest
                       currentNonce (body\<lparr>sigs := sigs'\<rparr>))"
      by (rule post_success_D)
    have w: "Map_wf (txs_of db (getSafeKey chainId safeAddress)) \<and>
             one_per_payload (txs_of db (getSafeKey chainId safeAddress))"
    proof (cases "db (getSafeKey chainId safeAddress)")
      case None
      then show ?thesis by (simp add: txs_of_def Map_wf_def one_per_payload_def)
    next
      case (Some x)
      then show ?thesis using post.IH [OF Some] by (simp add: txs_of_def)
    qed
    show ?thesis
    proof (cases "k = getSafeKey chainId safeAddress")
      case True
      with post.prems r d have "txs = commit (txs_of db (getSafeKey chainId safeAddress)) digest
                       currentNonce (body\<lparr>sigs := sigs'\<rparr>)" by simp
      with w show ?thesis by (simp add: commit_wf commit_one_per_payload)
    next
      case False
      with post.prems r d have "db k = Some txs" by simp
      then show ?thesis by (rule post.IH)
    qed
  qed
qed

section \<open>Facts about the concrete environment\<close>

lemma hexDigit_hexChar: "n < 16 \<Longrightarrow> hexDigit (hexChar n) = Some n"
  by (auto simp: hexDigit_def hexChar_def Let_def)

lemma byte_nibbles: "of_nat (16 * (unat b div 16) + unat b mod 16) = (b :: byte)"
  by simp

lemma unat_byte_div: "unat (b :: byte) div 16 < 16"
  using unsigned_less [of b, where 'a = nat] by simp

lemma parseHexPairs_hexlify:
  "parseHexPairs (concat (map (\<lambda>b. [hexChar (unat b div 16), hexChar (unat b mod 16)]) bs))
     = Some (bs :: byte list)"
  by (induction bs) (simp_all add: hexDigit_hexChar unat_byte_div)

lemma getBytes_hexlify: "getBytes (hexlify bs) = Some bs"
  by (simp add: getBytes_def hexlify_def parseHexPairs_hexlify)

lemma hexlify_inj: "hexlify a = hexlify b \<longleftrightarrow> a = b"
  by (metis getBytes_hexlify option.inject)

lemma length_hexlify: "length (hexlify bs) = 2 + 2 * length bs"
  by (simp add: hexlify_def length_concat o_def sum_list_triv)

lemma toLowerCase_safeA: "toLowerCase safeA = safeA"
  by (simp add: toLowerCase_def safeA_def)

lemma at_lookup_test:
  "length (data (txn body)) + length (sigs body) \<le> 1000000 \<Longrightarrow>
   at_lookup (test_env cur) ''1'' safeA body 1 safeA (data (txn body)) (data (txn body)) cur"
  by (simp add: at_lookup_def parseSafeParams_def test_env_def isSafeInteger_def
        toLowerCase_safeA MAX_TXDATA_SIZE_def) (simp add: safeA_def)

lemma getSafeKey_test: "getSafeKey 1 safeA = (1, safeA)"
  by (simp add: getSafeKey_def toLowerCase_safeA)

lemma post_test:
  assumes "length (data (txn body)) + length (sigs body) \<le> 1000000"
  shows "post_handler (test_env cur) ''1'' safeA body db =
     (case submitted_sigs (test_env cur) (txs_of db (1, safeA)) (data (txn body)) cur body of
        Inl err \<Rightarrow> (Inl err, db)
      | Inr sigs' \<Rightarrow>
          if \<not> sigs_valid (test_env cur) 1 safeA (data (txn body)) (data (txn body)) sigs'
          then (Inl InvalidSignature, db)
          else (Inr (Map_values (commit (txs_of db (1, safeA)) (data (txn body))
                       cur (body\<lparr>sigs := sigs'\<rparr>))),
                db((1, safeA) \<mapsto>
                     commit (txs_of db (1, safeA)) (data (txn body))
                       cur (body\<lparr>sigs := sigs'\<rparr>))))"
  using post_at_lookup [OF at_lookup_test [OF assms], of cur db]
  unfolding getSafeKey_test .

lemma length_dg: "length (dg i) = 2 + 2 * i"
  by (simp add: dg_def length_hexlify)

lemma sigs_valid_test: "sigs' = [mk_sig a v] \<Longrightarrow> sigs_valid (test_env cur) c s d h sigs'"
  by (simp add: sigs_valid_def ethers_concat_def mk_sig_def getBytes_hexlify test_env_def)

lemma commit_empty:
  "commit [] d c i = (if nonce (txn i) < c then [] else [(d, i)])"
  by (simp add: commit_def Map_delete_def)

section \<open>Failures leave the store unchanged\<close>

text \<open>
  C2: a stage submission that ends in any error leaves the proposal store exactly as it
  was: the store returned is the store given, in every namespace.
\<close>

theorem failure_leaves_store:
  "post_handler e p_chainId p_safeAddress body db = (Inl err, db') \<Longrightarrow> db' = db"
  by (auto simp: post_handler_def Let_def sortBy_post_iteratee
           split: sum.splits option.splits if_splits prod.splits)

theorem failure_leaves_store_witness:
  "fst (post_handler (test_env 5) ''1'' safeA \<lparr>txn = tx (dg 1) 4, sigs = [mk_sig 17 27]\<rparr>
          (full_db 1)) = Inl NonceTooLow \<and>
   snd (post_handler (test_env 5) ''1'' safeA \<lparr>txn = tx (dg 1) 4, sigs = [mk_sig 17 27]\<rparr>
          (full_db 1)) = full_db 1"
proof -
  let ?b = "\<lparr>txn = tx (dg 1) 4, sigs = [mk_sig 17 27]\<rparr>"
  let ?r = "post_handler (test_env 5) ''1'' safeA ?b (full_db 1)"
  have s: "length (data (txn ?b)) + length (sigs ?b) \<le> 1000000"
    by (simp add: tx_def length_dg)
  have f: "fst ?r = Inl NonceTooLow"
    unfolding post_test [OF s]
    by (simp add: tx_def submitted_sigs_def txs_of_def full_db_def
          staged_n_def Map_get_def dg_def hexlify_inj first_submission_def Map_size_def
          MAX_TXNS_STAGED_def)
  then have "?r = (Inl NonceTooLow, snd ?r)"
    by (metis prod.collapse)
  from failure_leaves_store [OF this] f show ?thesis by simp
qed

subsection \<open>The row of staged transactions\<close>

lemma dg_inj: "dg i = dg j \<longleftrightarrow> i = j"
  by (auto simp: dg_def hexlify_inj dest: arg_cong [where f = length])

lemma Map_get_staged_n:
  "Map_get (staged_n n) (dg k) = (if k < n then Some (body_n k) else None)"
  unfolding Map_get_def staged_n_def
  by (induction n) (auto simp: dg_inj map_add_def less_Suc_eq split: option.splits)

lemma Map_size_staged_n: "Map_size (staged_n n) = n"
  by (simp add: Map_size_def staged_n_def)

lemma Map_wf_staged_n: "Map_wf (staged_n n)"
  by (simp add: Map_wf_def staged_n_def distinct_map o_def inj_on_def dg_inj)

lemma txs_of_full_db: "txs_of (full_db n) (1, safeA) = staged_n n"
  by (simp add: txs_of_def full_db_def)

lemma staged_n_Suc: "staged_n (Suc n) = staged_n n @ [(dg n, body_n n)]"
  by (simp add: staged_n_def)

lemma body_n_size: "length (data (txn (body_n n))) + length (sigs (body_n n)) = 3 + 2 * n"
  by (simp add: body_n_def tx_def length_dg)

lemma commit_staged_n: "commit (staged_n n) (dg n) 0 (body_n n) = staged_n (Suc n)"
proof -
  have "Map_set (staged_n n) (dg n) (body_n n) = staged_n (Suc n)"
    by (simp add: Map_set_absent Map_get_staged_n staged_n_Suc)
  moreover have "filter (\<lambda>p. \<not> (nonce (txn (snd p)) < 0 \<or>
        (fst p \<noteq> dg n \<and> txn (snd p) = txn (body_n n)))) (staged_n (Suc n)) = staged_n (Suc n)"
    unfolding filter_id_conv
    by (auto simp: staged_n_def body_n_def tx_def dg_inj)
  ultimately show ?thesis
    by (simp add: commit_filter [OF Map_wf_staged_n])
qed

lemma first_submission_staged_n:
  "n \<le> 100 \<Longrightarrow> first_submission (staged_n n) 0 (body_n n) = Inr (sigs (body_n n))"
proof -
  assume n: "n \<le> 100"
  have "find (\<lambda>tx. nonce (txn tx) = nonce (txn (body_n n)) - 1) (Map_values (staged_n n)) \<noteq> None"
    if "0 < n"
  proof -
    from that have "body_n (n - 1) \<in> set (Map_values (staged_n n))"
      by (auto simp: Map_values_def staged_n_def image_iff intro!: bexI [of _ "n - 1"])
    moreover have "nonce (txn (body_n (n - 1))) = nonce (txn (body_n n)) - 1"
      using that by (simp add: body_n_def tx_def)
    ultimately show ?thesis unfolding find_None_iff by blast
  qed
  with n show ?thesis
    by (auto simp: first_submission_def Map_size_staged_n MAX_TXNS_STAGED_def body_n_def tx_def)
qed

lemma post_staged_n:
  assumes "n \<le> 100"
  shows "post_handler (test_env 0) ''1'' safeA (body_n n) (full_db n) =
           (Inr (Map_values (staged_n (Suc n))), full_db (Suc n))"
proof -
  have s: "length (data (txn (body_n n))) + length (sigs (body_n n)) \<le> 1000000"
    using assms by (simp add: body_n_size)
  have d: "data (txn (body_n n)) = dg n" by (simp add: body_n_def tx_def)
  have b: "body_n n\<lparr>sigs := sigs (body_n n)\<rparr> = body_n n" by simp
  have v: "sigs_valid (test_env 0) 1 safeA (dg n) (dg n) (sigs (body_n n))"
    by (rule sigs_valid_test) (simp add: body_n_def)
  show ?thesis
    unfolding post_test [OF s] d txs_of_full_db
    by (simp add: submitted_sigs_def Map_get_staged_n first_submission_staged_n [OF assms]
          v b commit_staged_n full_db_def)
qed

lemma post_first:
  "post_handler (test_env 0) ''1'' safeA (body_n 0) Map.empty =
           (Inr (Map_values (staged_n 1)), full_db 1)"
proof -
  have s: "length (data (txn (body_n 0))) + length (sigs (body_n 0)) \<le> 1000000"
    by (simp add: body_n_size)
  have d: "data (txn (body_n 0)) = dg 0" by (simp add: body_n_def tx_def)
  have b: "body_n 0\<lparr>sigs := sigs (body_n 0)\<rparr> = body_n 0" by simp
  have v: "sigs_valid (test_env 0) 1 safeA (dg 0) (dg 0) (sigs (body_n 0))"
    by (rule sigs_valid_test) (simp add: body_n_def)
  have t: "txs_of Map.empty (1, safeA) = staged_n 0" by (simp add: txs_of_def staged_n_def)
  show ?thesis
    unfolding post_test [OF s] d t
    by (simp add: submitted_sigs_def Map_get_staged_n first_submission_staged_n
          v b commit_staged_n full_db_def)
qed

lemma reachable_full_db: "0 < n \<Longrightarrow> n \<le> 101 \<Longrightarrow> reachable (full_db n)"
proof (induction n)
  case 0
  then show ?case by simp
next
  case (Suc n)
  show ?case
  proof (cases "n = 0")
    case True
    have "reachable (snd (post_handler (test_env 0) ''1'' safeA (body_n 0) Map.empty))"
      by (rule reachable.post) (rule reachable.start)
    then show ?thesis using True by (simp add: post_first)
  next
    case False
    with Suc have r: "reachable (full_db n)" and n: "n \<le> 100" by simp_all
    have "reachable (snd (post_handler (test_env 0) ''1'' safeA (body_n n) (full_db n)))"
      by (rule reachable.post) (rule r)
    then show ?thesis by (simp add: post_staged_n [OF n])
  qed
qed

section \<open>The nonce rules and the capacity of a namespace\<close>

lemma at_lookup_unique:
  assumes "at_lookup e p_chainId p_safeAddress body c a h d n"
    and "at_lookup e p_chainId p_safeAddress body c' a' h' d' n'"
  shows "c' = c \<and> a' = a \<and> h' = h \<and> d' = d \<and> n' = n"
  using assms by (auto simp: at_lookup_def)

lemma post_first_submission_error:
  assumes "at_lookup e p_chainId p_safeAddress body chainId safeAddress hashData digest currentNonce"
    and "Map_get (txs_of db (getSafeKey chainId safeAddress)) digest = None"
    and "first_submission (txs_of db (getSafeKey chainId safeAddress)) currentNonce body = Inl err"
  shows "post_handler e p_chainId p_safeAddress body db = (Inl err, db)"
  unfolding post_at_lookup [OF assms(1)] using assms(2,3)
  by (simp add: submitted_sigs_def)

lemma post_first_submission_not_nonce_error:
  assumes "at_lookup e p_chainId p_safeAddress body chainId safeAddress hashData digest currentNonce"
    and "Map_get (txs_of db (getSafeKey chainId safeAddress)) digest = None"
    and "nonce (txn body) = currentNonce"
  shows "fst (post_handler e p_chainId p_safeAddress body db) \<noteq> Inl NonceTooLow \<and>
         fst (post_handler e p_chainId p_safeAddress body db) \<noteq> Inl NonceGap"
  unfolding post_at_lookup [OF assms(1)] using assms(2,3)
  by (simp add: submitted_sigs_def first_submission_def)

text \<open>
  C1 (as amended): for a submission whose digest is not staged in the namespace, when the
  namespace holds at most 100 staged transactions: a nonce below the current on-chain nonce
  fails with NonceTooLow, and a nonce above it with no staged transaction of nonce - 1 fails
  with NonceGap. A nonce equal to the current on-chain nonce is rejected by neither rule,
  whatever the size of the namespace.
\<close>

theorem nonce_rules_first_submission:
  assumes "at_lookup e p_chainId p_safeAddress body chainId safeAddress hashData digest currentNonce"
    and "Map_get (txs_of db (getSafeKey chainId safeAddress)) digest = None"
  shows
    "(Map_size (txs_of db (getSafeKey chainId safeAddress)) \<le> MAX_TXNS_STAGED \<and>
      nonce (txn body) < currentNonce
        \<longrightarrow> post_handler e p_chainId p_safeAddress body db = (Inl NonceTooLow, db)) \<and>
     (Map_size (txs_of db (getSafeKey chainId safeAddress)) \<le> MAX_TXNS_STAGED \<and>
      nonce (txn body) > currentNonce \<and>
      (\<forall>t \<in> set (Map_values (txs_of db (getSafeKey chainId safeAddress))).
          nonce (txn t) \<noteq> nonce (txn body) - 1)
        \<longrightarrow> post_handler e p_chainId p_safeAddress body db = (Inl NonceGap, db)) \<and>
     (nonce (txn body) = currentNonce
        \<longrightarrow> fst (post_handler e p_chainId p_safeAddress body db) \<noteq> Inl NonceTooLow \<and>
            fst (post_handler e p_chainId p_safeAddress body db) \<noteq> Inl NonceGap)"
proof (intro conjI impI)
  assume "Map_size (txs_of db (getSafeKey chainId safeAddress)) \<le> MAX_TXNS_STAGED \<and>
      nonce (txn body) < currentNonce"
  then have "first_submission (txs_of db (getSafeKey chainId safeAddress)) currentNonce body
               = Inl NonceTooLow"
    by (simp add: first_submission_def)
  then show "post_handler e p_chainId p_safeAddress body db = (Inl NonceTooLow, db)"
    by (rule post_first_submission_error [OF assms])
next
  assume a: "Map_size (txs_of db (getSafeKey chainId safeAddress)) \<le> MAX_TXNS_STAGED \<and>
      nonce (txn body) > currentNonce \<and>
      (\<forall>t \<in> set (Map_values (txs_of db (getSafeKey chainId safeAddress))).
          nonce (txn t) \<noteq> nonce (txn body) - 1)"
  then have "find (\<lambda>tx. nonce (txn tx) = nonce (txn body) - 1)
               (Map_values (txs_of db (getSafeKey chainId safeAddress))) = None"
    unfolding find_None_iff by blast
  with a have "first_submission (txs_of db (getSafeKey chainId safeAddress)) currentNonce body
               = Inl NonceGap"
    by (simp add: first_submission_def)
  then show "post_handler e p_chainId p_safeAddress body db = (Inl NonceGap, db)"
    by (rule post_first_submission_error [OF assms])
next
  assume "nonce (txn body) = currentNonce"
  with post_first_submission_not_nonce_error [OF assms]
  show "fst (post_handler e p_chainId p_safeAddress body db) \<noteq> Inl NonceTooLow"
    and "fst (post_handler e p_chainId p_safeAddress body db) \<noteq> Inl NonceGap"
    by simp_all
qed

lemma small_body: "length (data (txn \<lparr>txn = tx (dg k) n, sigs = [s]\<rparr>)) +
    length (sigs \<lparr>txn = tx (dg k) n, sigs = [s]\<rparr>) = 3 + 2 * k"
  by (simp add: tx_def length_dg)

lemma at_lookup_small:
  "k \<le> 1000 \<Longrightarrow>
   at_lookup (test_env cur) ''1'' safeA \<lparr>txn = tx (dg k) n, sigs = [s]\<rparr> 1 safeA (dg k) (dg k) cur"
proof -
  assume "k \<le> 1000"
  then have "length (data (txn \<lparr>txn = tx (dg k) n, sigs = [s]\<rparr>)) +
    length (sigs \<lparr>txn = tx (dg k) n, sigs = [s]\<rparr>) \<le> 1000000"
    unfolding small_body by simp
  from at_lookup_test [OF this, of cur] show ?thesis by (simp add: tx_def)
qed

theorem nonce_rules_first_submission_witness:
  "post_handler (test_env 5) ''1'' safeA \<lparr>txn = tx (dg 9) 4, sigs = [mk_sig 17 27]\<rparr> (full_db 3)
     = (Inl NonceTooLow, full_db 3) \<and>
   post_handler (test_env 5) ''1'' safeA \<lparr>txn = tx (dg 9) 7, sigs = [mk_sig 17 27]\<rparr> (full_db 3)
     = (Inl NonceGap, full_db 3) \<and>
   fst (post_handler (test_env 5) ''1'' safeA \<lparr>txn = tx (dg 9) 5, sigs = [mk_sig 17 27]\<rparr>
          (full_db 3)) \<noteq> Inl NonceTooLow \<and>
   fst (post_handler (test_env 5) ''1'' safeA \<lparr>txn = tx (dg 9) 5, sigs = [mk_sig 17 27]\<rparr>
          (full_db 3)) \<noteq> Inl NonceGap"
proof -
  have g: "Map_get (txs_of (full_db 3) (getSafeKey 1 safeA)) (dg 9) = None"
    by (simp add: getSafeKey_test txs_of_full_db Map_get_staged_n)
  have z: "Map_size (txs_of (full_db 3) (getSafeKey 1 safeA)) \<le> MAX_TXNS_STAGED"
    by (simp add: getSafeKey_test txs_of_full_db Map_size_staged_n MAX_TXNS_STAGED_def)
  have v: "\<forall>t \<in> set (Map_values (txs_of (full_db 3) (getSafeKey 1 safeA))).
             nonce (txn t) \<noteq> 7 - 1"
    by (auto simp: getSafeKey_test txs_of_full_db Map_values_def staged_n_def body_n_def tx_def)
  have n: "nonce (txn \<lparr>txn = tx (dg 9) m, sigs = [mk_sig 17 27]\<rparr>) = m" for m
    by (simp add: tx_def)
  have a: "at_lookup (test_env 5) ''1'' safeA \<lparr>txn = tx (dg 9) m, sigs = [mk_sig 17 27]\<rparr>
             1 safeA (dg 9) (dg 9) 5" for m
    by (rule at_lookup_small) simp
  show ?thesis
    using nonce_rules_first_submission [OF a [of 4] g]
      nonce_rules_first_submission [OF a [of 7] g]
      nonce_rules_first_submission [OF a [of 5] g]
      z v
    unfolding n by simp
qed

lemma post_too_many_staged:
  assumes "at_lookup e p_chainId p_safeAddress body chainId safeAddress hashData digest currentNonce"
    and "Map_get (txs_of db (getSafeKey chainId safeAddress)) digest = None"
    and "Map_size (txs_of db (getSafeKey chainId safeAddress)) > MAX_TXNS_STAGED"
  shows "post_handler e p_chainId p_safeAddress body db = (Inl TooManyStaged, db)"
  using assms(3) by (intro post_first_submission_error [OF assms(1,2)]) (simp add: first_submission_def)

text \<open>
  Without the bound on the size the first two rules fail: with 101 transactions staged and
  the safe's nonce at 5, a new transaction with nonce 3 is answered TooManyStaged.
\<close>

theorem nonce_rules_counterexample:
  "Map_get (txs_of (full_db 101) (1, safeA)) (dg 200) = None \<and>
   nonce (tx (dg 200) 3) < 5 \<and>
   post_handler (test_env 5) ''1'' safeA \<lparr>txn = tx (dg 200) 3, sigs = [mk_sig 17 27]\<rparr>
     (full_db 101) = (Inl TooManyStaged, full_db 101)"
proof -
  have g: "Map_get (txs_of (full_db 101) (getSafeKey 1 safeA)) (dg 200) = None"
    by (simp add: getSafeKey_test txs_of_full_db Map_get_staged_n)
  have z: "Map_size (txs_of (full_db 101) (getSafeKey 1 safeA)) > MAX_TXNS_STAGED"
    by (simp add: getSafeKey_test txs_of_full_db Map_size_staged_n MAX_TXNS_STAGED_def)
  have "200 \<le> (1000::nat)" by simp
  from post_too_many_staged [OF at_lookup_small [OF this] g z] g
  show ?thesis by (simp add: getSafeKey_test tx_def)
qed

text \<open>
  C6: with exactly 100 transactions staged in the namespace, the handler accepts a
  101st distinct digest: the capacity test is \<open>txs.size > MAX_TXNS_STAGED\<close>, on the size
  before the insertion. The store \<open>full_db 100\<close> is reached by 100 POSTs from the empty store.
\<close>

theorem hundred_staged_accepts_one_more:
  "reachable (full_db 100) \<and>
   Map_size (txs_of (full_db 100) (1, safeA)) = MAX_TXNS_STAGED \<and>
   Map_get (txs_of (full_db 100) (1, safeA)) (dg 100) = None \<and>
   post_handler (test_env 0) ''1'' safeA (body_n 100) (full_db 100) =
     (Inr (Map_values (staged_n 101)), full_db 101) \<and>
   Map_size (txs_of (full_db 101) (1, safeA)) = 101"
  using post_staged_n [of 100]
  by (simp add: reachable_full_db txs_of_full_db Map_size_staged_n MAX_TXNS_STAGED_def
        Map_get_staged_n)

section \<open>Signatures\<close>

subsection \<open>Recovery in the concrete environment\<close>

lemma take_concat_pairs:
  "take (2 * n) (concat (map (\<lambda>b. [f b, g b]) bs)) = concat (map (\<lambda>b. [f b, g b]) (take n bs))"
proof (induction bs arbitrary: n)
  case Nil
  then show ?case by simp
next
  case (Cons b bs)
  then show ?case by (cases n) simp_all
qed

lemma take_hexlify: "take (2 + 2 * n) (hexlify bs) = hexlify (take n bs)"
  using take_concat_pairs [of n _ _ bs]
  by (simp add: hexlify_def)

lemma toLowerCase_hexChar: "n < 16 \<Longrightarrow> toLowerCase [hexChar n] = [hexChar n]"
  by (auto simp: toLowerCase_def hexChar_def Let_def)

lemma toLowerCase_append: "toLowerCase (a @ b) = toLowerCase a @ toLowerCase b"
  by (simp add: toLowerCase_def)

lemma toLowerCase_Cons: "toLowerCase (c # s) = toLowerCase [c] @ toLowerCase s"
  by (simp add: toLowerCase_def)

lemma unat_byte_mod: "unat (b :: byte) mod 16 < 16"
  by simp

lemma toLowerCase_hexlify: "toLowerCase (hexlify bs) = hexlify bs"
proof -
  have "toLowerCase (concat (map (\<lambda>b. [hexChar (unat b div 16), hexChar (unat b mod 16)]) bs))
      = concat (map (\<lambda>b. [hexChar (unat b div 16), hexChar (unat b mod 16)]) bs)"
  proof (induction bs)
    case Nil
    then show ?case by (simp add: toLowerCase_def)
  next
    case (Cons b bs)
    have "toLowerCase [hexChar (unat b div 16), hexChar (unat b mod 16)]
            = [hexChar (unat b div 16), hexChar (unat b mod 16)]"
      using toLowerCase_hexChar [OF unat_byte_div [of b]] toLowerCase_hexChar [OF unat_byte_mod [of b]]
      by (simp add: toLowerCase_def)
    with Cons show ?case by (simp add: toLowerCase_def)
  qed
  moreover have "toLowerCase ''0x'' = ''0x''" by (simp add: toLowerCase_def)
  ultimately show ?thesis by (simp add: hexlify_def toLowerCase_def)
qed

lemma hexlify_append: "hexlify (a @ b) = hexlify a @ drop 2 (hexlify b)"
  by (simp add: hexlify_def)

lemma test_recoverAddress_rsv:
  assumes "a \<noteq> 0" and "unat a < 128" and "w = 27 \<or> w = 28"
  shows "test_recoverAddress h (hexlify (replicate 32 34 @ replicate 32 a @ [w]))
           = Some (hexlify (replicate 19 a @ [w]))"
proof -
  let ?bs = "replicate 32 34 @ replicate 32 a @ [w]"
  have 1: "length ?bs = 65" by simp
  have 2: "take 32 ?bs = replicate 32 34" by simp
  have 3: "?bs ! 32 = a" by (simp add: nth_append)
  have 4: "drop 32 ?bs = replicate 32 a @ [w]" by simp
  have 5: "take 32 (replicate 32 a @ [w]) = replicate 32 a" by simp
  have 6: "replicate 32 a \<noteq> replicate 32 0" using assms(1) by simp
  have 7: "?bs ! 64 = w" by (simp add: nth_append)
  have 8: "take 19 (replicate 32 a @ [w]) = replicate 19 a" by simp
  show ?thesis
    unfolding test_recoverAddress_def getBytes_hexlify option.case 1 2 3 4 5 7 8
    using assms(2,3) 6 by simp
qed

lemma recoverSigner_test:
  assumes "a \<noteq> 0" and "unat a < 128" and "v = 27 \<or> v = 28 \<or> v = 31 \<or> v = 32"
  shows "recoverSigner (test_env cur) (dg k) (mk_sig a v) =
     Some (hexlify (replicate 19 a @ [if 30 < unat v then v - 4 else v]))"
proof -
  have u: "(replicate 32 34 @ replicate 32 a @ [v])[64 := x]
             = replicate 32 34 @ replicate 32 a @ [x]" for x :: byte
    using list_update_length [of "replicate 32 34 @ replicate 32 a" v "[]" x] by simp
  have r: "recoverAddress (test_env cur) = test_recoverAddress" by (simp add: test_env_def)
  have l: "lodash_last (replicate 32 34 @ replicate 32 a @ [v]) = Some v"
    by (simp add: lodash_last_def)
  have n: "length (replicate 32 34 @ replicate 32 a @ [v]) - 1 = 64" by simp
  show ?thesis
  proof (cases "30 < unat v")
    case True
    with assms(3) have w: "v - 4 = 27 \<or> v - 4 = 28" by auto
    show ?thesis
      unfolding recoverSigner_def mk_sig_def getBytes_hexlify dg_def r option.case l n Let_def
      using True
      by (simp only: if_True u test_recoverAddress_rsv [OF assms(1,2) w] option.case
            toLowerCase_hexlify)
  next
    case False
    with assms(3) have w: "v = 27 \<or> v = 28" by auto
    show ?thesis
      unfolding recoverSigner_def mk_sig_def getBytes_hexlify dg_def r option.case l n Let_def
      using False
      by (simp only: if_False test_recoverAddress_rsv [OF assms(1,2) w] option.case
            toLowerCase_hexlify)
  qed
qed

lemma recoverSigner_17 [simp]:
  "recoverSigner (test_env cur) (dg k) (mk_sig 17 27) = Some (hexlify (replicate 19 17 @ [27]))"
  using recoverSigner_test [of 17 27 cur k] by simp

lemma recoverSigner_34 [simp]:
  "recoverSigner (test_env cur) (dg k) (mk_sig 34 27) = Some (hexlify (replicate 19 34 @ [27]))"
  "recoverSigner (test_env cur) (dg k) (mk_sig 34 31) = Some (hexlify (replicate 19 34 @ [27]))"
  "recoverSigner (test_env cur) (dg k) (mk_sig 34 28) = Some (hexlify (replicate 19 34 @ [28]))"
  "recoverSigner (test_env cur) (dg k) (mk_sig 34 32) = Some (hexlify (replicate 19 34 @ [28]))"
  using recoverSigner_test [of 34 27 cur k] recoverSigner_test [of 34 31 cur k]
    recoverSigner_test [of 34 28 cur k] recoverSigner_test [of 34 32 cur k]
  by simp_all


subsection \<open>The merge\<close>

lemma mergeSigs_Some:
  assumes "mergeSigs e digest incoming existing = Some merged"
  shows "merged = sort_key (\<lambda>s. the (recoverSigner e digest s)) (lodash_union incoming existing)"
    and "\<forall>s \<in> set incoming \<union> set existing. recoverSigner e digest s \<noteq> None"
  using lodash_sortBy_Some [OF assms [unfolded mergeSigs_def]]
  by (simp_all add: lodash_union_set)

lemma mergeSigs_None:
  "mergeSigs e digest incoming existing = None \<longleftrightarrow>
     (\<exists>s \<in> set incoming \<union> set existing. recoverSigner e digest s = None)"
  by (simp add: mergeSigs_def lodash_sortBy_None lodash_union_set)

lemma mergeSigs_total:
  assumes "\<And>s. s \<in> set incoming \<union> set existing \<Longrightarrow> recoverSigner e digest s = Some (k s)"
  shows "mergeSigs e digest incoming existing = Some (sort_key k (lodash_union incoming existing))"
  unfolding mergeSigs_def
  by (rule lodash_sortBy_total) (simp add: assms lodash_union_set)


section \<open>The clean-up after a commit\<close>

lemma distinct_payloads:
  assumes "Map_wf txs" and "one_per_payload txs"
  shows "distinct (map txn (Map_values txs))"
proof -
  have "inj_on (\<lambda>p. txn (snd p)) (set txs)"
  proof (rule inj_onI)
    fix p q assume p: "p \<in> set txs" and q: "q \<in> set txs" and e: "txn (snd p) = txn (snd q)"
    with assms(2) have k: "fst p = fst q" unfolding one_per_payload_def by blast
    have "(fst p, snd p) \<in> set txs" using p by simp
    moreover have "(fst q, snd q) \<in> set txs" using q by simp
    then have "(fst p, snd q) \<in> set txs" by (simp only: k)
    ultimately have "(fst p, snd p) \<in> set txs" "(fst p, snd q) \<in> set txs" .
    with assms(1) have "snd p = snd q"
      unfolding Map_wf_def by (rule eq_key_imp_eq_value)
    with k show "p = q" by (simp add: prod_eq_iff)
  qed
  moreover have "distinct txs" using assms(1) unfolding Map_wf_def by (simp add: distinct_map)
  ultimately show ?thesis
    by (simp add: Map_values_def distinct_map o_def)
qed

lemma txs_of_wf: "reachable db \<Longrightarrow> Map_wf (txs_of db k) \<and> one_per_payload (txs_of db k)"
proof (cases "db k")
  case None
  then show ?thesis by (simp add: txs_of_def Map_wf_def one_per_payload_def)
next
  case (Some x)
  assume "reachable db"
  from reachable_inv [OF this Some] Some show ?thesis by (simp add: txs_of_def)
qed

lemma post_success_store:
  assumes "at_lookup e p_chainId p_safeAddress body chainId safeAddress hashData digest currentNonce"
    and "post_handler e p_chainId p_safeAddress body db = (Inr r, db')"
  obtains sigs' where
    "submitted_sigs e (txs_of db (getSafeKey chainId safeAddress)) digest currentNonce body = Inr sigs'"
    "sigs_valid e chainId safeAddress digest hashData sigs'"
    "r = Map_values (txs_of db' (getSafeKey chainId safeAddress))"
    "txs_of db' (getSafeKey chainId safeAddress) =
       commit (txs_of db (getSafeKey chainId safeAddress)) digest currentNonce (body\<lparr>sigs := sigs'\<rparr>)"
    "db' = db(getSafeKey chainId safeAddress \<mapsto> txs_of db' (getSafeKey chainId safeAddress))"
proof -
  from assms(2) obtain c a h d n sigs' where
    l: "at_lookup e p_chainId p_safeAddress body c a h d n"
    and s: "submitted_sigs e (txs_of db (getSafeKey c a)) d n body = Inr sigs'"
    and v: "sigs_valid e c a d h sigs'"
    and r: "r = Map_values (commit (txs_of db (getSafeKey c a)) d n (body\<lparr>sigs := sigs'\<rparr>))"
    and d: "db' = db(getSafeKey c a \<mapsto> commit (txs_of db (getSafeKey c a)) d n (body\<lparr>sigs := sigs'\<rparr>))"
    by (rule post_success_D)
  from at_lookup_unique [OF assms(1) l] have u: "c = chainId" "a = safeAddress" "h = hashData"
    "d = digest" "n = currentNonce" by simp_all
  have t: "txs_of db' (getSafeKey chainId safeAddress) =
       commit (txs_of db (getSafeKey chainId safeAddress)) digest currentNonce (body\<lparr>sigs := sigs'\<rparr>)"
    using d u by (simp add: txs_of_def)
  show thesis
    using s v r d unfolding u t [symmetric] by (rule that [OF _ _ _ t])
qed

text \<open>
  C4: after a successful stage call, every transaction staged in the namespace has a
  nonce not below the nonce snapshot of the call, no two staged transactions have equal
  payloads, and the entry just written is still there when its nonce equals the snapshot.
  The store before the call is any store the server can reach.
\<close>

theorem clean_up_after_commit:
  assumes "reachable db"
    and "at_lookup e p_chainId p_safeAddress body chainId safeAddress hashData digest currentNonce"
    and "post_handler e p_chainId p_safeAddress body db = (Inr r, db')"
  shows "(\<forall>t \<in> set (Map_values (txs_of db' (getSafeKey chainId safeAddress))).
            currentNonce \<le> nonce (txn t)) \<and>
         distinct (map txn (Map_values (txs_of db' (getSafeKey chainId safeAddress)))) \<and>
         (nonce (txn body) = currentNonce \<longrightarrow>
            (\<exists>sigs'. Map_get (txs_of db' (getSafeKey chainId safeAddress)) digest
                        = Some (body\<lparr>sigs := sigs'\<rparr>)))"
proof -
  let ?txs = "txs_of db (getSafeKey chainId safeAddress)"
  from assms(2,3) obtain sigs' where
    t: "txs_of db' (getSafeKey chainId safeAddress) = commit ?txs digest currentNonce (body\<lparr>sigs := sigs'\<rparr>)"
    by (rule post_success_store)
  from txs_of_wf [OF assms(1)] have w: "Map_wf ?txs" and o: "one_per_payload ?txs" by simp_all
  have "\<forall>t \<in> set (Map_values (txs_of db' (getSafeKey chainId safeAddress))).
            currentNonce \<le> nonce (txn t)"
    unfolding t Map_values_def using commit_nonces [OF w] by auto
  moreover have "distinct (map txn (Map_values (txs_of db' (getSafeKey chainId safeAddress))))"
    unfolding t by (rule distinct_payloads [OF commit_wf [OF w] commit_one_per_payload [OF w o]])
  moreover have "Map_get (txs_of db' (getSafeKey chainId safeAddress)) digest
                        = Some (body\<lparr>sigs := sigs'\<rparr>)" if "nonce (txn body) = currentNonce"
    unfolding t using that by (intro commit_kept [OF w]) simp
  ultimately show ?thesis by blast
qed

lemma staged_3: "staged_n 3 = [(dg 0, body_n 0), (dg 1, body_n 1), (dg 2, body_n 2)]"
proof -
  have "staged_n (Suc (Suc (Suc 0))) =
          [(dg 0, body_n 0), (dg (Suc 0), body_n (Suc 0)), (dg (Suc (Suc 0)), body_n (Suc (Suc 0)))]"
    by (simp add: staged_n_def)
  moreover have "Suc (Suc (Suc 0)) = 3" "Suc (Suc 0) = 2" "Suc 0 = 1" by simp_all
  ultimately show ?thesis by metis
qed

lemma post_test_new_2:
  "post_handler (test_env 2) ''1'' safeA \<lparr>txn = tx (dg 7) 2, sigs = [mk_sig 34 27]\<rparr> (full_db 3)
     = (Inr [body_n 2, \<lparr>txn = tx (dg 7) 2, sigs = [mk_sig 34 27]\<rparr>],
        Map.empty((1, safeA) \<mapsto>
          [(dg 2, body_n 2), (dg 7, \<lparr>txn = tx (dg 7) 2, sigs = [mk_sig 34 27]\<rparr>)]))"
proof -
  let ?b = "\<lparr>txn = tx (dg 7) 2, sigs = [mk_sig 34 27]\<rparr>"
  have s: "length (data (txn ?b)) + length (sigs ?b) \<le> 1000000"
    unfolding small_body by simp
  have d: "data (txn ?b) = dg 7" by (simp add: tx_def)
  have g: "Map_get (staged_n 3) (dg 7) = None" by (simp add: Map_get_staged_n)
  have f: "first_submission (staged_n 3) 2 ?b = Inr [mk_sig 34 27]"
    by (simp add: first_submission_def Map_size_staged_n MAX_TXNS_STAGED_def tx_def)
  have v: "sigs_valid (test_env 2) 1 safeA (dg 7) (dg 7) [mk_sig 34 27]"
    by (rule sigs_valid_test) simp
  have c: "commit (staged_n 3) (dg 7) 2 ?b = [(dg 2, body_n 2), (dg 7, ?b)]"
    by (simp add: commit_filter [OF Map_wf_staged_n] Map_set_absent g)
       (simp add: staged_3 body_n_def tx_def dg_inj)
  show ?thesis
    unfolding post_test [OF s] d txs_of_full_db
    by (simp add: submitted_sigs_def g f v c Map_values_def full_db_def)
qed

theorem clean_up_after_commit_witness:
  "reachable (full_db 3) \<and>
   post_handler (test_env 2) ''1'' safeA \<lparr>txn = tx (dg 7) 2, sigs = [mk_sig 34 27]\<rparr> (full_db 3)
     = (Inr [body_n 2, \<lparr>txn = tx (dg 7) 2, sigs = [mk_sig 34 27]\<rparr>],
        Map.empty((1, safeA) \<mapsto>
          [(dg 2, body_n 2), (dg 7, \<lparr>txn = tx (dg 7) 2, sigs = [mk_sig 34 27]\<rparr>)])) \<and>
   2 \<le> nonce (txn (body_n 2)) \<and>
   2 \<le> nonce (txn \<lparr>txn = tx (dg 7) 2, sigs = [mk_sig 34 27]\<rparr>) \<and>
   distinct (map txn [body_n 2, \<lparr>txn = tx (dg 7) 2, sigs = [mk_sig 34 27]\<rparr>]) \<and>
   (\<exists>sigs'. Map_get [(dg 2, body_n 2), (dg 7, \<lparr>txn = tx (dg 7) 2, sigs = [mk_sig 34 27]\<rparr>)] (dg 7)
              = Some \<lparr>txn = tx (dg 7) 2, sigs = sigs'\<rparr>)"
proof -
  have r: "reachable (full_db 3)" by (rule reachable_full_db) simp_all
  have a: "at_lookup (test_env 2) ''1'' safeA \<lparr>txn = tx (dg 7) 2, sigs = [mk_sig 34 27]\<rparr>
             1 safeA (dg 7) (dg 7) 2"
    by (rule at_lookup_small) simp
  have n: "nonce (txn \<lparr>txn = tx (dg 7) 2, sigs = [mk_sig 34 27]\<rparr>) = 2" by (simp add: tx_def)
  from clean_up_after_commit [OF r a post_test_new_2] r post_test_new_2 n
  show ?thesis
    by (simp add: getSafeKey_test txs_of_def Map_values_def)
qed

section \<open>Submissions on a staged digest\<close>

lemma sigs_valid_hexlified:
  assumes "sigs' \<noteq> []" and "\<And>s. s \<in> set sigs' \<Longrightarrow> \<exists>bs. s = hexlify bs"
  shows "sigs_valid (test_env cur) c a d h sigs'"
proof -
  have "\<forall>s \<in> set sigs'. getBytes s \<noteq> None"
  proof
    fix s assume "s \<in> set sigs'"
    from assms(2) [OF this] obtain bs where "s = hexlify bs" ..
    then show "getBytes s \<noteq> None" by (simp add: getBytes_hexlify)
  qed
  then have "those (map getBytes sigs') \<noteq> None"
    using those_map_None [of getBytes sigs'] by blast
  with assms(1) show ?thesis
    by (auto simp: sigs_valid_def ethers_concat_def test_env_def)
qed

lemma post_merge_error:
  assumes "at_lookup e p_chainId p_safeAddress body chainId safeAddress hashData digest currentNonce"
    and "Map_get (txs_of db (getSafeKey chainId safeAddress)) digest = Some existingTx"
    and "merge_submission e digest existingTx body = Inl err"
  shows "post_handler e p_chainId p_safeAddress body db = (Inl err, db)"
  unfolding post_at_lookup [OF assms(1)] using assms(2,3)
  by (simp add: submitted_sigs_def)

lemma merge_submission_errors:
  "merge_submission e digest existingTx body = Inl err \<Longrightarrow>
     err = UnexpectedError \<or> err = TooManySignatures"
  by (auto simp: merge_submission_def split: option.splits if_splits)

lemma post_merge_not_nonce_error:
  assumes "at_lookup e p_chainId p_safeAddress body chainId safeAddress hashData digest currentNonce"
    and "Map_get (txs_of db (getSafeKey chainId safeAddress)) digest = Some existingTx"
  shows "fst (post_handler e p_chainId p_safeAddress body db) \<noteq> Inl NonceTooLow"
    and "fst (post_handler e p_chainId p_safeAddress body db) \<noteq> Inl NonceGap"
  unfolding post_at_lookup [OF assms(1)] using assms(2)
  by (auto simp: submitted_sigs_def split: sum.splits dest: merge_submission_errors)

subsection \<open>Signatures whose signer cannot be recovered\<close>

lemma post_merge_recovery_fails:
  assumes "at_lookup e p_chainId p_safeAddress body chainId safeAddress hashData digest currentNonce"
    and "Map_get (txs_of db (getSafeKey chainId safeAddress)) digest = Some existingTx"
    and "s \<in> set (sigs body) \<union> set (sigs existingTx)"
    and "recoverSigner e digest s = None"
  shows "post_handler e p_chainId p_safeAddress body db = (Inl UnexpectedError, db)"
proof -
  from assms(3,4) have "mergeSigs e digest (sigs body) (sigs existingTx) = None"
    unfolding mergeSigs_None by blast
  then have "merge_submission e digest existingTx body = Inl UnexpectedError"
    by (simp add: merge_submission_def)
  then show ?thesis by (rule post_merge_error [OF assms(1,2)])
qed

text \<open>
  C9 (as amended): in a submission on an already staged digest, a signature of the
  submission or of the staged entry whose signer cannot be recovered makes the call fail
  with the response of the outer \<open>catch\<close> (status 500, unexpected error). Nothing is
  committed and no signature is dropped; the code has no separate error for it.
\<close>

theorem recovery_failure_is_unexpected_error:
  assumes "at_lookup e p_chainId p_safeAddress body chainId safeAddress hashData digest currentNonce"
    and "Map_get (txs_of db (getSafeKey chainId safeAddress)) digest = Some existingTx"
    and "s \<in> set (sigs body) \<union> set (sigs existingTx)"
    and "recoverSigner e digest s = None"
  shows "post_handler e p_chainId p_safeAddress body db = (Inl UnexpectedError, db) \<and>
         status UnexpectedError = 500"
  using post_merge_recovery_fails [OF assms] by simp

lemma recoverSigner_short: "recoverSigner (test_env cur) (dg k) (hexlify [1, 2, 3]) = None"
  by (simp add: recoverSigner_def getBytes_hexlify lodash_last_def dg_def test_env_def
        test_recoverAddress_def Let_def)

lemma recoverSigner_not_hex: "recoverSigner e d ''0xzz'' = None"
  by (simp add: recoverSigner_def getBytes_def hexDigit_def)

theorem recovery_failure_is_unexpected_error_witness:
  "Map_get (txs_of (full_db 3) (1, safeA)) (dg 2) = Some (body_n 2) \<and>
   recoverSigner (test_env 0) (dg 2) (hexlify [1, 2, 3]) = None \<and>
   post_handler (test_env 0) ''1'' safeA \<lparr>txn = tx (dg 2) 2, sigs = [hexlify [1, 2, 3]]\<rparr>
     (full_db 3) = (Inl UnexpectedError, full_db 3)"
proof -
  have a: "at_lookup (test_env 0) ''1'' safeA \<lparr>txn = tx (dg 2) 2, sigs = [hexlify [1, 2, 3]]\<rparr>
             1 safeA (dg 2) (dg 2) 0"
    by (rule at_lookup_small) simp
  have g: "Map_get (txs_of (full_db 3) (getSafeKey 1 safeA)) (dg 2) = Some (body_n 2)"
    by (simp add: getSafeKey_test txs_of_full_db Map_get_staged_n)
  have s: "hexlify [1, 2, 3] \<in> set (sigs \<lparr>txn = tx (dg 2) 2, sigs = [hexlify [1, 2, 3]]\<rparr>)
             \<union> set (sigs (body_n 2))"
    by simp
  from recovery_failure_is_unexpected_error [OF a g s recoverSigner_short] g recoverSigner_short
  show ?thesis by (simp add: getSafeKey_test)
qed

text \<open>
  A signature that is not hexadecimal, merged into a staged entry: the answer is the
  unexpected-error response with status 500.
\<close>

theorem undecodable_signature_counterexample:
  "Map_get (txs_of (full_db 1) (1, safeA)) (dg 0) = Some (body_n 0) \<and>
   getBytes ''0xzz'' = None \<and>
   recoverSigner (test_env 0) (dg 0) ''0xzz'' = None \<and>
   post_handler (test_env 0) ''1'' safeA \<lparr>txn = tx (dg 0) 0, sigs = [''0xzz'']\<rparr> (full_db 1)
     = (Inl UnexpectedError, full_db 1) \<and>
   status UnexpectedError = 500 \<and>
   message UnexpectedError = ''unexpected error, please check server logs''"
proof -
  have a: "at_lookup (test_env 0) ''1'' safeA \<lparr>txn = tx (dg 0) 0, sigs = [''0xzz'']\<rparr>
             1 safeA (dg 0) (dg 0) 0"
    by (rule at_lookup_small) simp
  have g: "Map_get (txs_of (full_db 1) (getSafeKey 1 safeA)) (dg 0) = Some (body_n 0)"
    by (simp add: getSafeKey_test txs_of_full_db Map_get_staged_n)
  have s: "''0xzz'' \<in> set (sigs \<lparr>txn = tx (dg 0) 0, sigs = [''0xzz'']\<rparr>) \<union> set (sigs (body_n 0))"
    by simp
  have b: "getBytes ''0xzz'' = None" by (simp add: getBytes_def hexDigit_def)
  from post_merge_recovery_fails [OF a g s recoverSigner_not_hex] g b recoverSigner_not_hex
  show ?thesis by (simp add: getSafeKey_test)
qed

text \<open>
  In a first submission no signer is recovered. A signature that does not decode makes
  \<open>ethers.concat\<close> throw inside the inner \<open>try\<close>, which answers "invalid signature".
\<close>

lemma first_submission_undecodable:
  assumes "at_lookup e p_chainId p_safeAddress body chainId safeAddress hashData digest currentNonce"
    and "Map_get (txs_of db (getSafeKey chainId safeAddress)) digest = None"
    and "first_submission (txs_of db (getSafeKey chainId safeAddress)) currentNonce body = Inr sigs'"
    and "s \<in> set (sigs body)" and "getBytes s = None"
  shows "post_handler e p_chainId p_safeAddress body db = (Inl InvalidSignature, db)"
proof -
  from assms(3) have e: "sigs' = sigs body"
    by (auto simp: first_submission_def split: if_splits)
  have "those (map getBytes (sigs body)) = None"
    unfolding those_map_None using assms(4,5) by blast
  then have "\<not> sigs_valid e chainId safeAddress digest hashData (sigs body)"
    by (simp add: sigs_valid_def ethers_concat_def)
  then show ?thesis
    unfolding post_at_lookup [OF assms(1)] using assms(2,3) e
    by (simp add: submitted_sigs_def)
qed

subsection \<open>Submitting a signature again\<close>

lemma filter_baseUniq: "filter P (baseUniq xs r) = baseUniq (filter P xs) (filter P r)"
  by (induction xs arbitrary: r) auto

lemma baseUniq_distinct_id:
  "distinct xs \<Longrightarrow> set xs \<inter> set r = {} \<Longrightarrow> baseUniq xs r = r @ xs"
  by (induction xs arbitrary: r) auto

lemma baseUniq_prefix: "\<exists>t. baseUniq xs r = r @ t"
proof (induction xs arbitrary: r)
  case Nil
  then show ?case by simp
next
  case (Cons x xs)
  show ?case
  proof (cases "x \<in> set r")
    case True
    with Cons [of r] show ?thesis by simp
  next
    case False
    from Cons [of "r @ [x]"] obtain t where "baseUniq xs (r @ [x]) = (r @ [x]) @ t" ..
    with False show ?thesis by simp
  qed
qed

lemma union_class_again:
  assumes m: "filter C m = filter C (lodash_union [s] ex)" and dm: "distinct m"
  shows "filter C (lodash_union [s] m) = filter C m"
proof (cases "C s")
  case True
  obtain t where t: "baseUniq (filter C ex) [s] = [s] @ t"
    using baseUniq_prefix by blast
  have f: "filter C m = s # t"
    using True t by (simp add: m lodash_union_def filter_baseUniq)
  have "distinct (s # t)" using dm f by (metis distinct_filter)
  then have "baseUniq t [s] = [s] @ t"
    by (intro baseUniq_distinct_id) auto
  then show ?thesis
    using True f by (simp add: lodash_union_def filter_baseUniq)
next
  case False
  have "baseUniq (filter C m) [] = [] @ filter C m"
    by (rule baseUniq_distinct_id) (simp_all add: dm)
  with False show ?thesis
    by (simp add: lodash_union_def filter_baseUniq)
qed

lemma mergeSigs_again:
  assumes "mergeSigs e digest [s] existing = Some merged"
  shows "mergeSigs e digest [s] merged = Some merged"
proof -
  let ?k = "\<lambda>x. the (recoverSigner e digest x)"
  let ?U = "lodash_union [s] existing"
  from mergeSigs_Some [OF assms] have m: "merged = sort_key ?k ?U"
    and k: "\<forall>x \<in> set [s] \<union> set existing. recoverSigner e digest x \<noteq> None" by simp_all
  have sm: "set merged = insert s (set existing)" by (simp add: m lodash_union_set)
  have dm: "distinct merged" by (simp add: m lodash_union_distinct)
  have "mergeSigs e digest [s] merged = Some (sort_key ?k (lodash_union [s] merged))"
    using k sm by (intro mergeSigs_total) auto
  moreover have "sort_key ?k (lodash_union [s] merged) = merged"
  proof (rule properties_for_sort_key)
    have "set merged = set (lodash_union [s] merged)"
      by (auto simp: lodash_union_set sm)
    then show "mset merged = mset (lodash_union [s] merged)"
      using dm lodash_union_distinct [of "[s]" merged] set_eq_iff_mset_eq_distinct by blast
  next
    fix x assume "x \<in> set merged"
    have "filter (\<lambda>y. ?k y = ?k x) merged = filter (\<lambda>y. ?k y = ?k x) ?U"
      unfolding m by (rule sort_key_stable)
    from union_class_again [OF this dm]
    show "filter (\<lambda>y. ?k x = ?k y) merged = filter (\<lambda>y. ?k x = ?k y) (lodash_union [s] merged)"
      by (simp add: eq_commute [of "?k x"])
  next
    show "sorted (map ?k merged)" by (simp add: m)
  qed
  ultimately show ?thesis by simp
qed

lemma mergeSigs_single:
  assumes "recoverSigner e digest s \<noteq> None"
  shows "mergeSigs e digest [s] [s] = Some [s]"
proof -
  have "mergeSigs e digest [s] [s] =
          Some (sort_key (\<lambda>x. the (recoverSigner e digest x)) (lodash_union [s] [s]))"
    using assms by (intro mergeSigs_total) auto
  then show ?thesis by (simp add: lodash_union_def)
qed

lemma commit_again:
  assumes w: "Map_wf txs" and n: "c \<le> nonce (txn i)"
  shows "commit (commit txs d c i) d c i = commit txs d c i"
proof -
  have w': "Map_wf (commit txs d c i)" by (rule commit_wf [OF w])
  have "Map_set (commit txs d c i) d i = commit txs d c i"
    by (rule Map_set_same [OF w' commit_kept [OF w n]])
  then show ?thesis
    unfolding commit_filter [OF w'] by (simp add: commit_filter [OF w])
qed

lemma submitted_single:
  assumes "submitted_sigs e txs d cur body = Inr sg" and "sigs body = [s]"
  shows "(sg = [s] \<and> Map_get txs d = None \<and> cur \<le> nonce (txn body)) \<or>
         (\<exists>ex. Map_get txs d = Some ex \<and> mergeSigs e d [s] (sigs ex) = Some sg \<and>
               length sg \<le> MAX_SIGS)"
  using assms
  by (auto simp: submitted_sigs_def first_submission_def merge_submission_def
           split: option.splits if_splits)

lemma merge_back:
  assumes "submitted_sigs e txs d cur body = Inr sg" and "sigs body = [s]"
    and "recoverSigner e d s \<noteq> None"
  shows "mergeSigs e d [s] sg = Some sg" and "length sg \<le> MAX_SIGS"
  using submitted_single [OF assms(1,2)] mergeSigs_single [OF assms(3)]
  by (auto simp: MAX_SIGS_def dest: mergeSigs_again)

lemma merge_back_unique:
  assumes "submitted_sigs e txs d cur body = Inr sg" and "sigs body = [s]"
    and "mergeSigs e d [s] sg = Some sg2"
  shows "sg2 = sg"
  using submitted_single [OF assms(1,2)]
proof (elim disjE conjE exE)
  assume "sg = [s]"
  with mergeSigs_Some(1) [OF assms(3)] show ?thesis by (simp add: lodash_union_def)
next
  fix ex :: StagedTransaction
  assume "mergeSigs e d [s] (sigs ex) = Some sg"
  from mergeSigs_again [OF this] assms(3) show ?thesis by simp
qed

lemma store_upd_same:
  "db' = db(k \<mapsto> txs_of db' k) \<Longrightarrow> db'(k \<mapsto> txs_of db' k) = db'"
  by (metis fun_upd_upd)

text \<open>
  C8 (as amended): let a submission of one signature succeed, and let the same submission
  be made again with the chain calls answering as before. The store after the second call
  is the store after the first, so the staged signature list is the same. If moreover the
  nonce of the transaction is not below the current on-chain nonce and the signer of the
  signature can be recovered, the second call succeeds with the same response.
\<close>

theorem restage_same_signature:
  assumes "reachable db"
    and "at_lookup e p_chainId p_safeAddress body chainId safeAddress hashData digest currentNonce"
    and "sigs body = [s]"
    and "post_handler e p_chainId p_safeAddress body db = (Inr r, db')"
  shows "snd (post_handler e p_chainId p_safeAddress body db') = db' \<and>
         (currentNonce \<le> nonce (txn body) \<and> recoverSigner e digest s \<noteq> None \<longrightarrow>
            post_handler e p_chainId p_safeAddress body db' = (Inr r, db'))"
proof -
  let ?k = "getSafeKey chainId safeAddress"
  from assms(2,4) obtain sg where
    sub: "submitted_sigs e (txs_of db ?k) digest currentNonce body = Inr sg" and
    v: "sigs_valid e chainId safeAddress digest hashData sg" and
    r: "r = Map_values (txs_of db' ?k)" and
    t: "txs_of db' ?k = commit (txs_of db ?k) digest currentNonce (body\<lparr>sigs := sg\<rparr>)" and
    d: "db' = db(?k \<mapsto> txs_of db' ?k)"
    by (rule post_success_store)
  from txs_of_wf [OF assms(1)] have w: "Map_wf (txs_of db ?k)" by simp
  have kept: "Map_get (txs_of db' ?k) digest = Some (body\<lparr>sigs := sg\<rparr>)"
    and again: "commit (txs_of db' ?k) digest currentNonce (body\<lparr>sigs := sg\<rparr>) = txs_of db' ?k"
    if "currentNonce \<le> nonce (txn body)"
    unfolding t using that by (simp_all add: commit_kept [OF w] commit_again [OF w])
  have second: "post_handler e p_chainId p_safeAddress body db' = (Inr r, db')"
    if n: "currentNonce \<le> nonce (txn body)" and m: "mergeSigs e digest [s] sg = Some sg"
      and l: "length sg \<le> MAX_SIGS"
  proof -
    have "submitted_sigs e (txs_of db' ?k) digest currentNonce body = Inr sg"
      using m l by (simp add: submitted_sigs_def kept [OF n] merge_submission_def assms(3))
    then show ?thesis
      unfolding post_at_lookup [OF assms(2)]
      by (simp add: v again [OF n] r store_upd_same [OF d])
  qed
  have "post_handler e p_chainId p_safeAddress body db' = (Inr r, db')"
    if "currentNonce \<le> nonce (txn body)" and "recoverSigner e digest s \<noteq> None"
    using second [OF that(1) merge_back [OF sub assms(3) that(2)]] .
  moreover have "snd (post_handler e p_chainId p_safeAddress body db') = db'"
  proof (cases "post_handler e p_chainId p_safeAddress body db'")
    case (Pair res db2)
    show ?thesis
    proof (cases res)
      case (Inl err)
      with Pair post_failure_store show ?thesis by fastforce
    next
      case (Inr r2)
      with Pair have p2: "post_handler e p_chainId p_safeAddress body db' = (Inr r2, db2)" by simp
      from assms(2) p2 obtain sg2 where
        sub2: "submitted_sigs e (txs_of db' ?k) digest currentNonce body = Inr sg2"
        by (rule post_success_store)
      have n: "currentNonce \<le> nonce (txn body)"
      proof (rule ccontr)
        assume "\<not> currentNonce \<le> nonce (txn body)"
        then have low: "nonce (txn body) < currentNonce" by simp
        then have "Map_get (txs_of db' ?k) digest = None"
          unfolding t by (intro commit_dropped [OF w]) simp
        with sub2 low show False
          by (simp add: submitted_sigs_def first_submission_def split: if_splits)
      qed
      from sub2 have "mergeSigs e digest [s] sg = Some sg2" and l: "length sg2 \<le> MAX_SIGS"
        by (auto simp: submitted_sigs_def kept [OF n] merge_submission_def assms(3)
                 split: option.splits if_splits)
      moreover from this(1) have "sg2 = sg" by (rule merge_back_unique [OF sub assms(3)])
      ultimately have "post_handler e p_chainId p_safeAddress body db' = (Inr r, db')"
        by (intro second [OF n]) simp_all
      then show ?thesis by simp
    qed
  qed
  ultimately show ?thesis by blast
qed

section \<open>The limit on signatures\<close>

lemma post_merge_too_many:
  assumes "at_lookup e p_chainId p_safeAddress body chainId safeAddress hashData digest currentNonce"
    and "Map_get (txs_of db (getSafeKey chainId safeAddress)) digest = Some existingTx"
    and "mergeSigs e digest (sigs body) (sigs existingTx) = Some merged"
    and "length merged > MAX_SIGS"
  shows "post_handler e p_chainId p_safeAddress body db = (Inl TooManySignatures, db)"
proof -
  from assms(3,4) have "merge_submission e digest existingTx body = Inl TooManySignatures"
    by (simp add: merge_submission_def)
  then show ?thesis by (rule post_merge_error [OF assms(1,2)])
qed

lemma first_submission_sigs:
  "first_submission txs currentNonce body = Inr sigs' \<Longrightarrow> sigs' = sigs body"
  by (auto simp: first_submission_def split: if_splits)

lemma byte_of_nat_inj: "i < 256 \<Longrightarrow> j < 256 \<Longrightarrow> (of_nat i :: byte) = of_nat j \<Longrightarrow> i = j"
proof -
  assume i: "i < 256" and j: "j < 256" and e: "(of_nat i :: byte) = of_nat j"
  have a: "i < 2 ^ LENGTH(8)" using i by simp
  have b: "j < 2 ^ LENGTH(8)" using j by simp
  have "i = unat (of_nat i :: byte)" by (rule sym) (rule of_nat_inverse [OF refl a])
  also have "\<dots> = unat (of_nat j :: byte)" by (rule arg_cong [OF e])
  also have "\<dots> = j" by (rule of_nat_inverse [OF refl b])
  finally show "i = j" .
qed

lemma unat_byte_Suc: "i < 255 \<Longrightarrow> unat (of_nat (Suc i) :: byte) = Suc i"
proof -
  assume "i < 255"
  then have "Suc i < 2 ^ LENGTH(8)" by simp
  then show ?thesis by (rule of_nat_inverse [OF refl])
qed

lemma signers_sigs_n:
  assumes "n \<le> 127"
  shows "map (recoverSigner (test_env cur) (dg k)) (sigs_n n)
     = map (\<lambda>i. Some (hexlify (replicate 19 (of_nat (Suc i)) @ [27]))) [0..<n]"
proof -
  have "recoverSigner (test_env cur) (dg k) (mk_sig (of_nat (Suc i)) 27)
          = Some (hexlify (replicate 19 (of_nat (Suc i)) @ [27]))" if "i < n" for i
  proof -
    from that assms have u: "unat (of_nat (Suc i) :: byte) = Suc i"
      by (intro unat_byte_Suc) simp
    then have "(of_nat (Suc i) :: byte) \<noteq> 0" by (metis Zero_not_Suc unat_0)
    moreover from u that assms have "unat (of_nat (Suc i) :: byte) < 128" by simp
    ultimately show ?thesis
      using recoverSigner_test [of "of_nat (Suc i)" 27 cur k] by simp
  qed
  then show ?thesis unfolding sigs_n_def map_map by (intro map_cong) simp_all
qed

lemma distinct_signers_sigs_n:
  assumes "n \<le> 127"
  shows "distinct (map (recoverSigner (test_env cur) (dg k)) (sigs_n n))"
proof -
  have "inj_on (\<lambda>i. Some (hexlify (replicate 19 (of_nat (Suc i) :: byte) @ [27]))) (set [0..<n])"
  proof (rule inj_onI)
    fix i j assume "i \<in> set [0..<n]" "j \<in> set [0..<n]"
      and "Some (hexlify (replicate 19 (of_nat (Suc i) :: byte) @ [27])) =
           Some (hexlify (replicate 19 (of_nat (Suc j)) @ [27]))"
    with assms have "Suc i < 256" "Suc j < 256" "(of_nat (Suc i) :: byte) = of_nat (Suc j)"
      by (auto simp: hexlify_inj)
    then have "Suc i = Suc j" by (rule byte_of_nat_inj)
    then show "i = j" by simp
  qed
  then show ?thesis unfolding signers_sigs_n [OF assms] by (simp add: distinct_map)
qed

text \<open>
  C5: a first submission carrying 101 signatures by 101 different signers is accepted
  and committed: the test against \<open>MAX_SIGS\<close> is made in the merge branch only.
\<close>

theorem first_submission_exceeds_MAX_SIGS:
  "length (sigs_n 101) = 101 \<and>
   MAX_SIGS < length (sigs_n 101) \<and>
   distinct (map (recoverSigner (test_env 0) (dg 0)) (sigs_n 101)) \<and>
   post_handler (test_env 0) ''1'' safeA \<lparr>txn = tx (dg 0) 0, sigs = sigs_n 101\<rparr> Map.empty
     = (Inr [\<lparr>txn = tx (dg 0) 0, sigs = sigs_n 101\<rparr>],
        Map.empty((1, safeA) \<mapsto> [(dg 0, \<lparr>txn = tx (dg 0) 0, sigs = sigs_n 101\<rparr>)]))"
proof -
  let ?b = "\<lparr>txn = tx (dg 0) 0, sigs = sigs_n 101\<rparr>"
  have l: "length (sigs_n 101) = 101" by (simp add: sigs_n_def)
  have s: "length (data (txn ?b)) + length (sigs ?b) \<le> 1000000"
    by (simp add: tx_def length_dg l)
  have d: "data (txn ?b) = dg 0" by (simp add: tx_def)
  have t: "txs_of Map.empty (1, safeA) = []" by (simp add: txs_of_def)
  have f: "first_submission [] 0 ?b = Inr (sigs_n 101)"
    by (simp add: first_submission_def Map_size_def MAX_TXNS_STAGED_def tx_def Map_values_def)
  have v: "sigs_valid (test_env 0) 1 safeA (dg 0) (dg 0) (sigs_n 101)"
  proof (rule sigs_valid_hexlified)
    show "sigs_n 101 \<noteq> []" using l by auto
    show "\<exists>bs. x = hexlify bs" if "x \<in> set (sigs_n 101)" for x
      using that by (auto simp: sigs_n_def mk_sig_def)
  qed
  have c: "commit [] (dg 0) 0 ?b = [(dg 0, ?b)]"
    by (simp add: commit_empty tx_def)
  have p: "post_handler (test_env 0) ''1'' safeA ?b Map.empty
     = (Inr [?b], Map.empty((1, safeA) \<mapsto> [(dg 0, ?b)]))"
    unfolding post_test [OF s] d t submitted_sigs_def
    by (simp add: Map_get_def f v c Map_values_def)
  from l p distinct_signers_sigs_n [of 101 0 0] show ?thesis
    by (simp add: MAX_SIGS_def)
qed

section \<open>The order of the response\<close>

lemma criterion_le: "criterion (Some a) \<le> criterion (Some b) \<longleftrightarrow> a \<le> b"
  by (auto simp: criterion_def)

text \<open>The GET handler sorts by \<open>t.txn._nonce\<close>: its response is ascending in the nonce.\<close>

lemma get_handler_sorted:
  assumes "get_handler e p_chainId p_safeAddress db = Inr r"
  shows "sorted (map (\<lambda>t. nonce (txn t)) r)"
proof -
  from assms obtain vs where "lodash_sortBy get_iteratee vs = Some r"
    by (auto simp: get_handler_def split: sum.splits option.splits if_splits prod.splits)
  from lodash_sortBy_Some(1) [OF this]
  have "sorted (map (\<lambda>t. the (get_iteratee t)) r)" by simp
  then have "sorted_wrt (\<lambda>x y. criterion (Some (nonce (txn x))) \<le> criterion (Some (nonce (txn y)))) r"
    by (simp add: sorted_map get_iteratee_def)
  then show ?thesis by (simp add: sorted_map criterion_le)
qed

lemma post_test_append:
  assumes k: "k \<le> 1000"
    and g: "Map_get (txs_of db (1, safeA)) (dg k) = None"
    and f: "first_submission (txs_of db (1, safeA)) cur \<lparr>txn = tx (dg k) n, sigs = [mk_sig a v]\<rparr>
              = Inr [mk_sig a v]"
    and w: "Map_wf (txs_of db (1, safeA))"
    and o: "\<forall>p \<in> set (txs_of db (1, safeA)). cur \<le> nonce (txn (snd p)) \<and> txn (snd p) \<noteq> tx (dg k) n"
  shows "post_handler (test_env cur) ''1'' safeA \<lparr>txn = tx (dg k) n, sigs = [mk_sig a v]\<rparr> db =
     (Inr (Map_values (txs_of db (1, safeA)) @ [\<lparr>txn = tx (dg k) n, sigs = [mk_sig a v]\<rparr>]),
      db((1, safeA) \<mapsto> txs_of db (1, safeA) @ [(dg k, \<lparr>txn = tx (dg k) n, sigs = [mk_sig a v]\<rparr>)]))"
proof -
  let ?b = "\<lparr>txn = tx (dg k) n, sigs = [mk_sig a v]\<rparr>"
  let ?txs = "txs_of db (1, safeA)"
  have s: "length (data (txn ?b)) + length (sigs ?b) \<le> 1000000"
    unfolding small_body using k by simp
  have d: "data (txn ?b) = dg k" by (simp add: tx_def)
  have v: "sigs_valid (test_env cur) 1 safeA (dg k) (dg k) [mk_sig a v]"
    by (rule sigs_valid_test) simp
  have n: "cur \<le> n" using f by (auto simp: first_submission_def tx_def split: if_splits)
  have "filter (\<lambda>p. \<not> (nonce (txn (snd p)) < cur \<or> (fst p \<noteq> dg k \<and> txn (snd p) = txn ?b)))
          (?txs @ [(dg k, ?b)]) = ?txs @ [(dg k, ?b)]"
    unfolding filter_id_conv using o n by (auto simp: tx_def)
  then have c: "commit ?txs (dg k) cur ?b = ?txs @ [(dg k, ?b)]"
    by (simp add: commit_filter [OF w] Map_set_absent [OF g])
  show ?thesis
    unfolding post_test [OF s] d submitted_sigs_def g
    by (simp add: f v c Map_values_def)
qed

text \<open>
  C7: with the safe's nonce at 5, three transactions with nonces 5, 6 and 5 are staged
  one after the other. The response of the third POST lists them in the order of
  insertion, nonces 5, 6, 5: the sort key \<open>t._nonce\<close> is undefined on every element.
  The GET handler returns the same store sorted by nonce.
\<close>

theorem post_response_in_insertion_order:
  "post_handler (test_env 5) ''1'' safeA \<lparr>txn = tx (dg 2) 5, sigs = [mk_sig 17 27]\<rparr> Map.empty
     = (Inr [\<lparr>txn = tx (dg 2) 5, sigs = [mk_sig 17 27]\<rparr>],
        Map.empty((1, safeA) \<mapsto> [(dg 2, \<lparr>txn = tx (dg 2) 5, sigs = [mk_sig 17 27]\<rparr>)])) \<and>
   post_handler (test_env 5) ''1'' safeA \<lparr>txn = tx (dg 3) 6, sigs = [mk_sig 17 27]\<rparr>
     (Map.empty((1, safeA) \<mapsto> [(dg 2, \<lparr>txn = tx (dg 2) 5, sigs = [mk_sig 17 27]\<rparr>)]))
     = (Inr [\<lparr>txn = tx (dg 2) 5, sigs = [mk_sig 17 27]\<rparr>,
             \<lparr>txn = tx (dg 3) 6, sigs = [mk_sig 17 27]\<rparr>],
        Map.empty((1, safeA) \<mapsto> [(dg 2, \<lparr>txn = tx (dg 2) 5, sigs = [mk_sig 17 27]\<rparr>),
                                  (dg 3, \<lparr>txn = tx (dg 3) 6, sigs = [mk_sig 17 27]\<rparr>)])) \<and>
   post_handler (test_env 5) ''1'' safeA \<lparr>txn = tx (dg 4) 5, sigs = [mk_sig 17 27]\<rparr>
     (Map.empty((1, safeA) \<mapsto> [(dg 2, \<lparr>txn = tx (dg 2) 5, sigs = [mk_sig 17 27]\<rparr>),
                               (dg 3, \<lparr>txn = tx (dg 3) 6, sigs = [mk_sig 17 27]\<rparr>)]))
     = (Inr [\<lparr>txn = tx (dg 2) 5, sigs = [mk_sig 17 27]\<rparr>,
             \<lparr>txn = tx (dg 3) 6, sigs = [mk_sig 17 27]\<rparr>,
             \<lparr>txn = tx (dg 4) 5, sigs = [mk_sig 17 27]\<rparr>],
        Map.empty((1, safeA) \<mapsto> [(dg 2, \<lparr>txn = tx (dg 2) 5, sigs = [mk_sig 17 27]\<rparr>),
                                  (dg 3, \<lparr>txn = tx (dg 3) 6, sigs = [mk_sig 17 27]\<rparr>),
                                  (dg 4, \<lparr>txn = tx (dg 4) 5, sigs = [mk_sig 17 27]\<rparr>)])) \<and>
   map (\<lambda>t. nonce (txn t))
     [\<lparr>txn = tx (dg 2) 5, sigs = [mk_sig 17 27]\<rparr>,
      \<lparr>txn = tx (dg 3) 6, sigs = [mk_sig 17 27]\<rparr>,
      \<lparr>txn = tx (dg 4) 5, sigs = [mk_sig 17 27]\<rparr>] = [5, 6, 5] \<and>
   \<not> sorted [5, 6, 5 :: int] \<and>
   get_handler (test_env 5) ''1'' safeA
     (Map.empty((1, safeA) \<mapsto> [(dg 2, \<lparr>txn = tx (dg 2) 5, sigs = [mk_sig 17 27]\<rparr>),
                               (dg 3, \<lparr>txn = tx (dg 3) 6, sigs = [mk_sig 17 27]\<rparr>),
                               (dg 4, \<lparr>txn = tx (dg 4) 5, sigs = [mk_sig 17 27]\<rparr>)]))
     = Inr [\<lparr>txn = tx (dg 2) 5, sigs = [mk_sig 17 27]\<rparr>,
            \<lparr>txn = tx (dg 4) 5, sigs = [mk_sig 17 27]\<rparr>,
            \<lparr>txn = tx (dg 3) 6, sigs = [mk_sig 17 27]\<rparr>]"
proof -
  let ?b1 = "\<lparr>txn = tx (dg 2) 5, sigs = [mk_sig 17 27]\<rparr>"
  let ?b2 = "\<lparr>txn = tx (dg 3) 6, sigs = [mk_sig 17 27]\<rparr>"
  let ?b3 = "\<lparr>txn = tx (dg 4) 5, sigs = [mk_sig 17 27]\<rparr>"
  let ?db1 = "Map.empty((1, safeA) \<mapsto> [(dg 2, ?b1)])"
  let ?db2 = "Map.empty((1, safeA) \<mapsto> [(dg 2, ?b1), (dg 3, ?b2)])"
  let ?db3 = "Map.empty((1, safeA) \<mapsto> [(dg 2, ?b1), (dg 3, ?b2), (dg 4, ?b3)])"
  have 1: "post_handler (test_env 5) ''1'' safeA ?b1 Map.empty = (Inr [?b1], ?db1)"
    using post_test_append [of 2 Map.empty 5 5 17 27]
    by (simp add: txs_of_def Map_get_def first_submission_def Map_size_def MAX_TXNS_STAGED_def
          Map_wf_def Map_values_def tx_def)
  have 2: "post_handler (test_env 5) ''1'' safeA ?b2 ?db1 = (Inr [?b1, ?b2], ?db2)"
    using post_test_append [of 3 ?db1 5 6 17 27]
    by (simp add: txs_of_def Map_get_def first_submission_def Map_size_def MAX_TXNS_STAGED_def
          Map_wf_def Map_values_def tx_def dg_inj)
  have 3: "post_handler (test_env 5) ''1'' safeA ?b3 ?db2 = (Inr [?b1, ?b2, ?b3], ?db3)"
    using post_test_append [of 4 ?db2 5 5 17 27]
    by (simp add: txs_of_def Map_get_def first_submission_def Map_size_def MAX_TXNS_STAGED_def
          Map_wf_def Map_values_def tx_def dg_inj)
  have "lodash_sortBy get_iteratee [?b1, ?b2, ?b3] =
          Some (sort_key (\<lambda>t. criterion (Some (nonce (txn t)))) [?b1, ?b2, ?b3])"
    by (rule lodash_sortBy_total) (simp add: get_iteratee_def)
  then have s: "lodash_sortBy get_iteratee [?b1, ?b2, ?b3] = Some [?b1, ?b3, ?b2]"
    by (simp add: criterion_def tx_def)
  have 4: "get_handler (test_env 5) ''1'' safeA ?db3 = Inr [?b1, ?b3, ?b2]"
    using s
    by (simp add: get_handler_def parseSafeParams_def test_env_def isSafeInteger_def
          toLowerCase_safeA getSafeKey_test txs_of_def Map_values_def)
       (simp add: safeA_def)
  have 5: "map (\<lambda>t. nonce (txn t)) [?b1, ?b2, ?b3] = [5, 6, 5]" by (simp add: tx_def)
  from 1 2 3 4 5 show ?thesis by simp
qed

section \<open>What a merge validates and stores\<close>






subsection \<open>Merges in the concrete environment\<close>


lemma commit_one:
  "commit [(d, old)] d c new = (if nonce (txn new) < c then [] else [(d, new)])"
  by (simp add: commit_def Map_delete_def)

lemma post_test_merge_one:
  assumes k: "k \<le> 1000"
    and m: "mergeSigs (test_env cur) (dg k) [s] sg0 = Some merged"
    and h: "\<And>x. x \<in> set merged \<Longrightarrow> \<exists>bs. x = hexlify bs"
    and l: "length merged \<le> 100"
  shows "post_handler (test_env cur) ''1'' safeA \<lparr>txn = tx (dg k) n, sigs = [s]\<rparr>
           (Map.empty((1, safeA) \<mapsto> [(dg k, \<lparr>txn = told, sigs = sg0\<rparr>)]))
     = (Inr (if n < cur then [] else [\<lparr>txn = tx (dg k) n, sigs = merged\<rparr>]),
        Map.empty((1, safeA) \<mapsto>
          (if n < cur then [] else [(dg k, \<lparr>txn = tx (dg k) n, sigs = merged\<rparr>)])))"
proof -
  let ?b = "\<lparr>txn = tx (dg k) n, sigs = [s]\<rparr>"
  let ?db = "Map.empty((1, safeA) \<mapsto> [(dg k, \<lparr>txn = told, sigs = sg0\<rparr>)])"
  have s: "length (data (txn ?b)) + length (sigs ?b) \<le> 1000000"
    unfolding small_body using k by simp
  have d: "data (txn ?b) = dg k" by (simp add: tx_def)
  have t: "txs_of ?db (1, safeA) = [(dg k, \<lparr>txn = told, sigs = sg0\<rparr>)]" by (simp add: txs_of_def)
  have g: "Map_get [(dg k, \<lparr>txn = told, sigs = sg0\<rparr>)] (dg k) = Some \<lparr>txn = told, sigs = sg0\<rparr>"
    by (simp add: Map_get_def)
  have ms: "merge_submission (test_env cur) (dg k) \<lparr>txn = told, sigs = sg0\<rparr> ?b = Inr merged"
    using m l by (simp add: merge_submission_def MAX_SIGS_def)
  from mergeSigs_Some [OF m] have "set merged = insert s (set sg0)" by (simp add: lodash_union_set)
  then have ne: "merged \<noteq> []" by auto
  have v: "sigs_valid (test_env cur) 1 safeA (dg k) (dg k) merged"
    using ne h by (rule sigs_valid_hexlified)
  have n: "nonce (tx (dg k) n) = n" by (simp add: tx_def)
  show ?thesis
    unfolding post_test [OF s] d t submitted_sigs_def g
    by (simp add: ms v commit_one n Map_values_def)
qed

lemma post_test_first_one:
  assumes "k \<le> 1000" and "cur \<le> n" and "n \<le> cur"
  shows "post_handler (test_env cur) ''1'' safeA \<lparr>txn = tx (dg k) n, sigs = [mk_sig a v]\<rparr> Map.empty
     = (Inr [\<lparr>txn = tx (dg k) n, sigs = [mk_sig a v]\<rparr>],
        Map.empty((1, safeA) \<mapsto> [(dg k, \<lparr>txn = tx (dg k) n, sigs = [mk_sig a v]\<rparr>)]))"
  using post_test_append [of k Map.empty cur n a v] assms
  by (simp add: txs_of_def Map_get_def first_submission_def Map_size_def MAX_TXNS_STAGED_def
        Map_wf_def Map_values_def tx_def)






section \<open>Submitting a signature again: two runs\<close>

text \<open>
  C8 at work: the signature \<open>mk_sig 34 27\<close> is submitted twice while the safe's nonce is 5.
\<close>

theorem restage_same_signature_witness:
  "post_handler (test_env 5) ''1'' safeA \<lparr>txn = tx (dg 2) 5, sigs = [mk_sig 34 27]\<rparr> Map.empty
     = (Inr [\<lparr>txn = tx (dg 2) 5, sigs = [mk_sig 34 27]\<rparr>],
        Map.empty((1, safeA) \<mapsto> [(dg 2, \<lparr>txn = tx (dg 2) 5, sigs = [mk_sig 34 27]\<rparr>)])) \<and>
   5 \<le> nonce (txn \<lparr>txn = tx (dg 2) 5, sigs = [mk_sig 34 27]\<rparr>) \<and>
   recoverSigner (test_env 5) (dg 2) (mk_sig 34 27) \<noteq> None \<and>
   post_handler (test_env 5) ''1'' safeA \<lparr>txn = tx (dg 2) 5, sigs = [mk_sig 34 27]\<rparr>
     (Map.empty((1, safeA) \<mapsto> [(dg 2, \<lparr>txn = tx (dg 2) 5, sigs = [mk_sig 34 27]\<rparr>)]))
     = (Inr [\<lparr>txn = tx (dg 2) 5, sigs = [mk_sig 34 27]\<rparr>],
        Map.empty((1, safeA) \<mapsto> [(dg 2, \<lparr>txn = tx (dg 2) 5, sigs = [mk_sig 34 27]\<rparr>)]))"
proof -
  let ?b = "\<lparr>txn = tx (dg 2) 5, sigs = [mk_sig 34 27]\<rparr>"
  have 1: "post_handler (test_env 5) ''1'' safeA ?b Map.empty
             = (Inr [?b], Map.empty((1, safeA) \<mapsto> [(dg 2, ?b)]))"
    by (rule post_test_first_one) simp_all
  have a: "at_lookup (test_env 5) ''1'' safeA ?b 1 safeA (dg 2) (dg 2) 5"
    by (rule at_lookup_small) simp
  have s: "sigs ?b = [mk_sig 34 27]" by simp
  have n: "5 \<le> nonce (txn ?b)" by (simp add: tx_def)
  have k: "recoverSigner (test_env 5) (dg 2) (mk_sig 34 27) \<noteq> None" by simp
  from restage_same_signature [OF reachable.start a s 1] n k 1
  show ?thesis by simp
qed

text \<open>
  The second submission can fail. The transaction is staged with nonce 5 and the
  signature \<open>mk_sig 34 27\<close>; the safe's nonce is 6 by now. The same submission succeeds
  through the merge branch and its entry is cleaned up at once; made again, it is a first
  submission and is answered NonceTooLow.
\<close>

theorem restage_stale_counterexample:
  "post_handler (test_env 5) ''1'' safeA \<lparr>txn = tx (dg 2) 5, sigs = [mk_sig 34 27]\<rparr> Map.empty
     = (Inr [\<lparr>txn = tx (dg 2) 5, sigs = [mk_sig 34 27]\<rparr>],
        Map.empty((1, safeA) \<mapsto> [(dg 2, \<lparr>txn = tx (dg 2) 5, sigs = [mk_sig 34 27]\<rparr>)])) \<and>
   post_handler (test_env 6) ''1'' safeA \<lparr>txn = tx (dg 2) 5, sigs = [mk_sig 34 27]\<rparr>
     (Map.empty((1, safeA) \<mapsto> [(dg 2, \<lparr>txn = tx (dg 2) 5, sigs = [mk_sig 34 27]\<rparr>)]))
     = (Inr [], Map.empty((1, safeA) \<mapsto> [])) \<and>
   post_handler (test_env 6) ''1'' safeA \<lparr>txn = tx (dg 2) 5, sigs = [mk_sig 34 27]\<rparr>
     (Map.empty((1, safeA) \<mapsto> []))
     = (Inl NonceTooLow, Map.empty((1, safeA) \<mapsto> []))"
proof -
  let ?b = "\<lparr>txn = tx (dg 2) 5, sigs = [mk_sig 34 27]\<rparr>"
  have 1: "post_handler (test_env 5) ''1'' safeA ?b Map.empty
             = (Inr [?b], Map.empty((1, safeA) \<mapsto> [(dg 2, ?b)]))"
    by (rule post_test_first_one) simp_all
  have m: "mergeSigs (test_env 6) (dg 2) [mk_sig 34 27] [mk_sig 34 27] = Some [mk_sig 34 27]"
    by (rule mergeSigs_single) simp
  have h: "\<exists>bs. x = hexlify bs" if "x \<in> set [mk_sig 34 27]" for x
    using that by (auto simp: mk_sig_def)
  have 2: "post_handler (test_env 6) ''1'' safeA ?b (Map.empty((1, safeA) \<mapsto> [(dg 2, ?b)]))
             = (Inr [], Map.empty((1, safeA) \<mapsto> []))"
    using post_test_merge_one [OF _ m h, where n = 5 and told = "tx (dg 2) 5"]
    by simp
  have s: "length (data (txn ?b)) + length (sigs ?b) \<le> 1000000"
    unfolding small_body by simp
  have d: "data (txn ?b) = dg 2" by (simp add: tx_def)
  have f: "first_submission [] 6 ?b = Inl NonceTooLow"
    by (simp add: first_submission_def Map_size_def MAX_TXNS_STAGED_def tx_def)
  have 3: "post_handler (test_env 6) ''1'' safeA ?b (Map.empty((1, safeA) \<mapsto> []))
             = (Inl NonceTooLow, Map.empty((1, safeA) \<mapsto> []))"
    unfolding post_test [OF s] d submitted_sigs_def
    by (simp add: txs_of_def Map_get_def f)
  from 1 2 3 show ?thesis by simp
qed

section \<open>Stale submissions on a staged digest\<close>

text \<open>
  C10: when the digest of the submission is already staged in the namespace, neither
  nonce rule is applied, and the call succeeds whenever the merge succeeds, stays within
  the limit and is accepted by the contract, whatever the nonce. If the call succeeds with
  a nonce below the current on-chain nonce, the clean-up removes the entry just written:
  the digest is not staged afterwards and no transaction of the response has the
  submitted payload.
\<close>

theorem staged_digest_skips_nonce_rules:
  assumes "reachable db"
    and "at_lookup e p_chainId p_safeAddress body chainId safeAddress hashData digest currentNonce"
    and "Map_get (txs_of db (getSafeKey chainId safeAddress)) digest = Some existingTx"
  shows "fst (post_handler e p_chainId p_safeAddress body db) \<noteq> Inl NonceTooLow \<and>
         fst (post_handler e p_chainId p_safeAddress body db) \<noteq> Inl NonceGap \<and>
         (\<forall>merged. mergeSigs e digest (sigs body) (sigs existingTx) = Some merged \<and>
                   length merged \<le> MAX_SIGS \<and>
                   sigs_valid e chainId safeAddress digest hashData merged \<longrightarrow>
            fst (post_handler e p_chainId p_safeAddress body db)
              = Inr (Map_values (commit (txs_of db (getSafeKey chainId safeAddress)) digest
                                   currentNonce (body\<lparr>sigs := merged\<rparr>)))) \<and>
         (\<forall>r db'. post_handler e p_chainId p_safeAddress body db = (Inr r, db') \<and>
                  nonce (txn body) < currentNonce \<longrightarrow>
            Map_get (txs_of db' (getSafeKey chainId safeAddress)) digest = None \<and>
            (\<forall>t \<in> set r. txn t \<noteq> txn body))"
proof (intro conjI allI impI)
  show "fst (post_handler e p_chainId p_safeAddress body db) \<noteq> Inl NonceTooLow"
    by (rule post_merge_not_nonce_error [OF assms(2,3)])
  show "fst (post_handler e p_chainId p_safeAddress body db) \<noteq> Inl NonceGap"
    by (rule post_merge_not_nonce_error [OF assms(2,3)])
next
  fix merged
  assume "mergeSigs e digest (sigs body) (sigs existingTx) = Some merged \<and>
          length merged \<le> MAX_SIGS \<and>
          sigs_valid e chainId safeAddress digest hashData merged"
  then show "fst (post_handler e p_chainId p_safeAddress body db)
              = Inr (Map_values (commit (txs_of db (getSafeKey chainId safeAddress)) digest
                                   currentNonce (body\<lparr>sigs := merged\<rparr>)))"
    unfolding post_at_lookup [OF assms(2)] using assms(3)
    by (simp add: submitted_sigs_def merge_submission_def)
next
  fix r db'
  assume a: "post_handler e p_chainId p_safeAddress body db = (Inr r, db') \<and>
             nonce (txn body) < currentNonce"
  let ?txs = "txs_of db (getSafeKey chainId safeAddress)"
  from a assms(2) obtain sigs' where
    r: "r = Map_values (txs_of db' (getSafeKey chainId safeAddress))" and
    t: "txs_of db' (getSafeKey chainId safeAddress) =
          commit ?txs digest currentNonce (body\<lparr>sigs := sigs'\<rparr>)"
    by (blast elim: post_success_store)
  from txs_of_wf [OF assms(1)] have w: "Map_wf ?txs" by simp
  show "Map_get (txs_of db' (getSafeKey chainId safeAddress)) digest = None"
    unfolding t using a by (intro commit_dropped [OF w]) simp
  show "\<forall>t \<in> set r. txn t \<noteq> txn body"
  proof
    fix x assume "x \<in> set r"
    then obtain p where "p \<in> set (commit ?txs digest currentNonce (body\<lparr>sigs := sigs'\<rparr>))"
      and "x = snd p"
      unfolding r t Map_values_def by auto
    with commit_nonces [OF w] have "currentNonce \<le> nonce (txn x)" by blast
    with a show "txn x \<noteq> txn body" by auto
  qed
qed

text \<open>
  Such a call: the transaction is staged with nonce 5 and the signature \<open>mk_sig 34 27\<close>,
  the safe's nonce is 6 by now, and a second signer submits \<open>mk_sig 34 28\<close>. The call
  succeeds and returns the empty list.
\<close>

theorem staged_digest_skips_nonce_rules_witness:
  "post_handler (test_env 5) ''1'' safeA \<lparr>txn = tx (dg 2) 5, sigs = [mk_sig 34 27]\<rparr> Map.empty
     = (Inr [\<lparr>txn = tx (dg 2) 5, sigs = [mk_sig 34 27]\<rparr>],
        Map.empty((1, safeA) \<mapsto> [(dg 2, \<lparr>txn = tx (dg 2) 5, sigs = [mk_sig 34 27]\<rparr>)])) \<and>
   nonce (tx (dg 2) 5) < 6 \<and>
   recoverSigner (test_env 6) (dg 2) (mk_sig 34 27) \<noteq> None \<and>
   recoverSigner (test_env 6) (dg 2) (mk_sig 34 28) \<noteq> None \<and>
   post_handler (test_env 6) ''1'' safeA \<lparr>txn = tx (dg 2) 5, sigs = [mk_sig 34 28]\<rparr>
     (Map.empty((1, safeA) \<mapsto> [(dg 2, \<lparr>txn = tx (dg 2) 5, sigs = [mk_sig 34 27]\<rparr>)]))
     = (Inr [], Map.empty((1, safeA) \<mapsto> [])) \<and>
   Map_get (txs_of (Map.empty((1, safeA) \<mapsto> [])) (1, safeA)) (dg 2) = None"
proof -
  let ?b27 = "\<lparr>txn = tx (dg 2) 5, sigs = [mk_sig 34 27]\<rparr>"
  let ?b28 = "\<lparr>txn = tx (dg 2) 5, sigs = [mk_sig 34 28]\<rparr>"
  let ?S = "Map.empty((1, safeA) \<mapsto> [(dg 2, ?b27)])"
  have 1: "post_handler (test_env 5) ''1'' safeA ?b27 Map.empty = (Inr [?b27], ?S)"
    by (rule post_test_first_one) simp_all
  have r: "reachable ?S"
    using reachable.post [OF reachable.start, of "test_env 5" "''1''" safeA ?b27]
    by (simp add: 1)
  let ?k = "\<lambda>s. if s = mk_sig 34 28 then hexlify (replicate 19 34 @ [28])
                  else hexlify (replicate 19 34 @ [27 :: byte])"
  have m: "mergeSigs (test_env 6) (dg 2) [mk_sig 34 28] [mk_sig 34 27]
             = Some (sort_key ?k (lodash_union [mk_sig 34 28] [mk_sig 34 27]))"
    by (rule mergeSigs_total) auto
  have h: "\<exists>bs. x = hexlify bs"
    if "x \<in> set (sort_key ?k (lodash_union [mk_sig 34 28] [mk_sig 34 27]))" for x
    using that by (auto simp: lodash_union_set mk_sig_def)
  have l: "length (sort_key ?k (lodash_union [mk_sig 34 28] [mk_sig 34 27])) \<le> 100"
    by (simp add: lodash_union_def)
  have 2: "post_handler (test_env 6) ''1'' safeA ?b28 ?S = (Inr [], Map.empty((1, safeA) \<mapsto> []))"
    using post_test_merge_one [OF _ m h l, where n = 5 and told = "tx (dg 2) 5"]
    by simp
  have a: "at_lookup (test_env 6) ''1'' safeA ?b28 1 safeA (dg 2) (dg 2) 6"
    by (rule at_lookup_small) simp
  have g: "Map_get (txs_of ?S (getSafeKey 1 safeA)) (dg 2) = Some ?b27"
    by (simp add: getSafeKey_test txs_of_def Map_get_def)
  have n: "nonce (txn ?b28) < 6" by (simp add: tx_def)
  from staged_digest_skips_nonce_rules [OF r a g] 2 n
  have "Map_get (txs_of (Map.empty((1, safeA) \<mapsto> [])) (getSafeKey 1 safeA)) (dg 2) = None"
    by blast
  with 1 2 show ?thesis by (simp add: getSafeKey_test tx_def)
qed

end
